theory Spec2Isabelle
  imports Main
begin

section \<open>Shellish: the argument registry and the parse/dispatch engine\<close>

text \<open>
  A shallow embedding of \<^verbatim>\<open>src/shellish.ts\<close> (class \<^verbatim>\<open>Shellish\<close>) and of the
  interfaces of \<^verbatim>\<open>types.ts\<close>.

  \<^item> JavaScript strings are \<open>string\<close>; the code only uses \<^verbatim>\<open>startsWith\<close>,
    \<^verbatim>\<open>substring\<close>, \<^verbatim>\<open>length\<close>, truthiness and concatenation, which act alike on
    lists of code units.
  \<^item> The arity \<^verbatim>\<open>args\<close> and every array index are \<open>int\<close>: the cursor of the loop
    is computed from the arity and can leave the range of the array, where
    \<^verbatim>\<open>args[i]\<close> is \<^verbatim>\<open>undefined\<close>.  Arities that are not integers, or of a magnitude
    of \<^verbatim>\<open>1e21\<close> or more (which a template literal renders with an exponent), are
    outside the model.
  \<^item> A \<^verbatim>\<open>Map\<close> is an association list in insertion order.
  \<^item> \<^verbatim>\<open>parsedArguments\<close> is a plain object: its own properties and its prototype,
    which is \<^verbatim>\<open>Object.prototype\<close> until an assignment to the key \<^verbatim>\<open>__proto__\<close> replaces
    it.  The operator \<^verbatim>\<open>in\<close> and the assignment \<^verbatim>\<open>obj[key] = value\<close> follow ECMAScript.
  \<^item> A callback is a function of the collected values, the context it is handed and the
    state of the host program; it returns, normally or with a thrown value, the context
    as it leaves it (the context is shared by reference, and the array of the collected
    values may be the one stored in it) and the new state of the host.  The field
    \<^verbatim>\<open>parsedArguments\<close> of the context it returns is the state in which it leaves the one
    object that \<^verbatim>\<open>parse\<close> created.  Callbacks that never return or that end the process,
    callbacks that put another object in the field \<^verbatim>\<open>parsedArguments\<close>, and callbacks that
    change the registry or the array of tokens given to \<^verbatim>\<open>parse\<close>, are outside the
    model.
  \<^item> The field \<open>invoked\<close> of the parser state is a log of the callback invocations, kept
    only to state properties about them.
\<close>

subsection \<open>Values and strings\<close>

datatype jsval = JTrue | JString string | JArray "string list" | JUndefined

text \<open>A thrown value: an \<^verbatim>\<open>Error\<close> with its message, or anything else.\<close>

datatype fault = ErrorObj string | NonError

definition startsWith :: "string \<Rightarrow> string \<Rightarrow> bool" where
  "startsWith s p = (take (length p) s = p)"

definition substring :: "string \<Rightarrow> nat \<Rightarrow> string" where
  "substring s n = drop n s"

text \<open>\<^verbatim>\<open>xs[i]\<close>: \<open>None\<close> is \<^verbatim>\<open>undefined\<close>.\<close>

definition at :: "'a list \<Rightarrow> int \<Rightarrow> 'a option" where
  "at xs i = (if 0 \<le> i \<and> i < int (length xs) then Some (xs ! nat i) else None)"

text \<open>Decimal rendering of an integer inside a template literal (for a magnitude below
  \<^verbatim>\<open>1e21\<close>).\<close>

fun digits :: "nat \<Rightarrow> string" where
  "digits n = (if n < 10 then [''0123456789'' ! n]
               else digits (n div 10) @ [''0123456789'' ! (n mod 10)])"

declare digits.simps [simp del]

definition toString :: "int \<Rightarrow> string" where
  "toString n = (if n < 0 then ''-'' @ digits (nat (- n)) else digits (nat n))"

subsection \<open>Plain objects\<close>

text \<open>
  A plain object whose values are those of \<open>jsval\<close>: its own properties, and its
  prototype, which is \<^verbatim>\<open>Object.prototype\<close> (\<open>None\<close>) or an array of strings that an
  assignment to \<^verbatim>\<open>__proto__\<close> has put in its place.  \<^verbatim>\<open>{}\<close> is \<open>emptyObject\<close>.
\<close>

record jsobj =
  own :: "string \<rightharpoonup> jsval"
  protoArray :: "string list option"

definition emptyObject :: jsobj where
  "emptyObject = \<lparr> own = Map.empty, protoArray = None \<rparr>"

text \<open>The string keys of the properties of \<^verbatim>\<open>Object.prototype\<close> and of
  \<^verbatim>\<open>Array.prototype\<close> in ECMAScript 2023 (with its annex B), and the string keys of the
  own properties of an array.\<close>

definition objectPrototypeNames :: "string list" where
  "objectPrototypeNames =
     [''constructor'', ''hasOwnProperty'', ''isPrototypeOf'', ''propertyIsEnumerable'',
      ''toLocaleString'', ''toString'', ''valueOf'', ''__proto__'',
      ''__defineGetter__'', ''__defineSetter__'', ''__lookupGetter__'', ''__lookupSetter__'']"

definition arrayPrototypeNames :: "string list" where
  "arrayPrototypeNames =
     [''length'', ''constructor'', ''at'', ''concat'', ''copyWithin'', ''entries'', ''every'',
      ''fill'', ''filter'', ''find'', ''findIndex'', ''findLast'', ''findLastIndex'', ''flat'',
      ''flatMap'', ''forEach'', ''includes'', ''indexOf'', ''join'', ''keys'', ''lastIndexOf'',
      ''map'', ''pop'', ''push'', ''reduce'', ''reduceRight'', ''reverse'', ''shift'', ''slice'',
      ''some'', ''sort'', ''splice'', ''toLocaleString'', ''toReversed'', ''toSorted'',
      ''toSpliced'', ''toString'', ''unshift'', ''values'', ''with'']"

definition arrayOwnNames :: "string list \<Rightarrow> string list" where
  "arrayOwnNames vs = ''length'' # map (\<lambda>i. toString (int i)) [0 ..< length vs]"

text \<open>The names that an object finds along its prototype chain.\<close>

definition inherits :: "jsobj \<Rightarrow> string \<Rightarrow> bool" where
  "inherits obj k =
     (k \<in> set objectPrototypeNames \<or>
      (case protoArray obj of
         None \<Rightarrow> False
       | Some vs \<Rightarrow> k \<in> set (arrayOwnNames vs) \<or> k \<in> set arrayPrototypeNames))"

text \<open>\<^verbatim>\<open>key in obj\<close>.\<close>

definition hasProperty :: "jsobj \<Rightarrow> string \<Rightarrow> bool" where
  "hasProperty obj k = (own obj k \<noteq> None \<or> inherits obj k)"

text \<open>
  \<^verbatim>\<open>obj[key] = value\<close>.  An own property is overwritten.  Otherwise the key
  \<^verbatim>\<open>__proto__\<close> reaches the setter of \<^verbatim>\<open>Object.prototype\<close>, which makes an array the new
  prototype and ignores \<^verbatim>\<open>true\<close>, strings and \<^verbatim>\<open>undefined\<close>; every other key becomes
  an own property, the inherited properties being writable data properties.
\<close>

definition assignProperty :: "jsobj \<Rightarrow> string \<Rightarrow> jsval \<Rightarrow> jsobj" where
  "assignProperty obj k v =
     (if own obj k = None \<and> k = ''__proto__''
      then (case v of JArray vs \<Rightarrow> obj\<lparr> protoArray := Some vs \<rparr> | _ \<Rightarrow> obj)
      else obj\<lparr> own := (own obj)(k \<mapsto> v) \<rparr>)"

subsection \<open>The interfaces of types.ts\<close>

record ShellishOptions =
  name :: string
  cli_description :: string
  version :: "string option"
  author :: "string option"
  helpText :: "string option"

record ParsedContext =
  command :: string
  remainingArgs :: "string list"
  allArgs :: "string list"
  parsedArguments :: jsobj

text \<open>What a callback does: it returns or throws, and leaves the context and the state of
  the host.\<close>

datatype 'w cb_result = Returned ParsedContext 'w | Threw fault ParsedContext 'w

type_synonym 'w callback_fn = "string list \<Rightarrow> ParsedContext \<Rightarrow> 'w \<Rightarrow> 'w cb_result"

text \<open>\<^verbatim>\<open>ArgumentOptions\<close>: the optional fields are options.\<close>

record 'w ArgumentOptions =
  opt_longName :: string
  opt_shortName :: "string option"
  opt_description :: string
  opt_args :: "int option"
  opt_required :: "bool option"
  opt_defaultValue :: "jsval option"
  opt_callback :: "'w callback_fn"

record 'w ParsedArgument =
  longName :: string
  shortName :: "string option"
  description :: string
  args :: int
  required :: bool
  defaultValue :: "jsval option"
  callback :: "'w callback_fn"

record ParseResult =
  success :: bool
  error :: "string option"

text \<open>The object returned by \<^verbatim>\<open>processArgument\<close>: a \<^verbatim>\<open>ParseResult\<close> with a
  \<^verbatim>\<open>nextIndex\<close>.\<close>

record ProcessResult = ParseResult +
  nextIndex :: int

subsection \<open>Map\<close>

definition Map_get :: "('k \<times> 'v) list \<Rightarrow> 'k \<Rightarrow> 'v option" where
  "Map_get m k = map_of m k"

definition Map_has :: "('k \<times> 'v) list \<Rightarrow> 'k \<Rightarrow> bool" where
  "Map_has m k = (map_of m k \<noteq> None)"

text \<open>\<^verbatim>\<open>Map.set\<close>: a present key keeps its place, a new key goes last.\<close>

fun Map_set :: "('k \<times> 'v) list \<Rightarrow> 'k \<Rightarrow> 'v \<Rightarrow> ('k \<times> 'v) list" where
  "Map_set [] k v = [(k, v)]"
| "Map_set (p # ps) k v = (if fst p = k then (k, v) # ps else p # Map_set ps k v)"

subsection \<open>The registry\<close>

record 'w Shellish =
  options :: ShellishOptions
  arguments :: "(string \<times> 'w ParsedArgument) list"
  shortNameMap :: "(string \<times> string) list"

text \<open>The two errors thrown by \<^verbatim>\<open>addArgument\<close>, each with the name at fault.\<close>

datatype reg_error = DuplicateLongName string | DuplicateShortName string

fun reg_error_message :: "reg_error \<Rightarrow> string" where
  "reg_error_message (DuplicateLongName l) =
     ''Argument with long name '' @ [CHR 0x27] @ l @ [CHR 0x27] @ '' already exists''"
| "reg_error_message (DuplicateShortName s) =
     ''Argument with short name '' @ [CHR 0x27] @ s @ [CHR 0x27] @ '' already exists''"

text \<open>
  \<^verbatim>\<open>addArgument\<close> (lines 49-75).  The result is the error thrown, if any, and the parser
  as the call leaves it.
\<close>

definition addArgument :: "'w ArgumentOptions \<Rightarrow> 'w Shellish \<Rightarrow> reg_error option \<times> 'w Shellish" where
  "addArgument argOptions this =
     (let parsedArg = \<lparr> longName = opt_longName argOptions,
                        shortName = opt_shortName argOptions,
                        description = opt_description argOptions,
                        args = (case opt_args argOptions of None \<Rightarrow> 0 | Some n \<Rightarrow> n),
                        required = (case opt_required argOptions of None \<Rightarrow> False | Some b \<Rightarrow> b),
                        defaultValue = opt_defaultValue argOptions,
                        callback = opt_callback argOptions \<rparr>
      in if Map_has (arguments this) (opt_longName argOptions)
         then (Some (DuplicateLongName (opt_longName argOptions)), this)
         else (case opt_shortName argOptions of
                 None \<Rightarrow>
                   (None, this\<lparr>arguments := Map_set (arguments this) (opt_longName argOptions) parsedArg\<rparr>)
               | Some s \<Rightarrow>
                   if s = [] then
                     (None, this\<lparr>arguments := Map_set (arguments this) (opt_longName argOptions) parsedArg\<rparr>)
                   else if Map_has (shortNameMap this) s
                   then (Some (DuplicateShortName s), this)
                   else (None, this\<lparr>shortNameMap := Map_set (shortNameMap this) s (opt_longName argOptions),
                                    arguments := Map_set (arguments this) (opt_longName argOptions) parsedArg\<rparr>)))"

subsection \<open>processArgument\<close>

text \<open>The state that a parse threads through: the context shared with the callbacks,
  the state of the host program, and the log of callback invocations.\<close>

record 'w pstate =
  pcontext :: ParsedContext
  world :: 'w
  invoked :: "(string \<times> string list) list"

text \<open>The \<^verbatim>\<open>while\<close> loop of lines 195-203; returns \<^verbatim>\<open>argValues\<close> and \<^verbatim>\<open>j\<close>.\<close>

function collectUnlimited :: "string list \<Rightarrow> int \<Rightarrow> int \<Rightarrow> string list \<Rightarrow> string list \<times> int" where
  "collectUnlimited argv nextIdx j argValues =
     (if nextIdx + j < int (length argv) then
        (case at argv (nextIdx + j) of
           None \<Rightarrow> (argValues, j)
         | Some nextArg \<Rightarrow>
             if nextArg = [] \<or> startsWith nextArg ''-'' then (argValues, j)
             else collectUnlimited argv nextIdx (j + 1) (argValues @ [nextArg]))
      else (argValues, j))"
  by pat_completeness auto
termination
  by (relation "measure (\<lambda>(argv, nextIdx, j, argValues). nat (int (length argv) - (nextIdx + j)))") auto

declare collectUnlimited.simps [simp del]

definition insufficientProvided :: "string \<Rightarrow> int \<Rightarrow> int \<Rightarrow> string" where
  "insufficientProvided l n j =
     ''Argument --'' @ l @ '' requires '' @ toString n @ '' value(s), but only '' @ toString j @ '' provided''"

definition insufficientFound :: "string \<Rightarrow> int \<Rightarrow> string option \<Rightarrow> string" where
  "insufficientFound l n nextArg =
     ''Argument --'' @ l @ '' requires '' @ toString n @ '' value(s), but found '' @
       (case nextArg of None \<Rightarrow> ''end of arguments''
        | Some a \<Rightarrow> if a = [] then ''end of arguments'' else ''flag '' @ a)"

text \<open>The \<^verbatim>\<open>for\<close> loop of lines 207-226: the failure returned from inside the loop,
  or \<^verbatim>\<open>argValues\<close>.\<close>

function collectFixed :: "'w ParsedArgument \<Rightarrow> string list \<Rightarrow> int \<Rightarrow> int \<Rightarrow> string list
    \<Rightarrow> ProcessResult + string list" where
  "collectFixed argumentDef argv nextIdx j argValues =
     (if j < args argumentDef then
        if nextIdx + j \<ge> int (length argv) then
          Inl \<lparr> success = False,
                error = Some (insufficientProvided (longName argumentDef) (args argumentDef) j),
                nextIndex = nextIdx + j \<rparr>
        else
          (case at argv (nextIdx + j) of
             None \<Rightarrow>
               Inl \<lparr> success = False,
                     error = Some (insufficientFound (longName argumentDef) (args argumentDef) None),
                     nextIndex = nextIdx + j \<rparr>
           | Some nextArg \<Rightarrow>
               if nextArg = [] \<or> startsWith nextArg ''-'' then
                 Inl \<lparr> success = False,
                       error = Some (insufficientFound (longName argumentDef) (args argumentDef)
                                       (Some nextArg)),
                       nextIndex = nextIdx + j \<rparr>
               else collectFixed argumentDef argv nextIdx (j + 1) (argValues @ [nextArg]))
      else Inr argValues)"
  by pat_completeness auto
termination
  by (relation "measure (\<lambda>(argumentDef, argv, nextIdx, j, argValues). nat (args argumentDef - j))") auto

declare collectFixed.simps [simp del]

text \<open>Line 229: the value stored under the long name.\<close>

definition recordedValue :: "int \<Rightarrow> string list \<Rightarrow> jsval" where
  "recordedValue n argValues =
     (if n = 0 then JTrue
      else if n = 1 then (case argValues of [] \<Rightarrow> JUndefined | v # _ \<Rightarrow> JString v)
      else JArray argValues)"

definition callbackFailure :: "string \<Rightarrow> fault \<Rightarrow> string" where
  "callbackFailure l f =
     ''Error executing callback for --'' @ l @ '': '' @
       (case f of ErrorObj m \<Rightarrow> m | NonError \<Rightarrow> ''Unknown error'')"

text \<open>Lines 229-242: store the value, run the callback, build the result.\<close>

definition recordAndInvoke :: "'w ParsedArgument \<Rightarrow> string list \<Rightarrow> int \<Rightarrow> 'w pstate
    \<Rightarrow> ProcessResult \<times> 'w pstate" where
  "recordAndInvoke argumentDef argValues nextIdx st =
     (let ctx = (pcontext st)\<lparr> parsedArguments :=
                  assignProperty (parsedArguments (pcontext st)) (longName argumentDef)
                    (recordedValue (args argumentDef) argValues) \<rparr>;
          calls = invoked st @ [(longName argumentDef, argValues)]
      in case callback argumentDef argValues ctx (world st) of
           Returned ctx' w \<Rightarrow>
             (\<lparr> success = True, error = None, nextIndex = nextIdx \<rparr>,
              \<lparr> pcontext = ctx', world = w, invoked = calls \<rparr>)
         | Threw f ctx' w \<Rightarrow>
             (\<lparr> success = False, error = Some (callbackFailure (longName argumentDef) f),
                nextIndex = nextIdx \<rparr>,
              \<lparr> pcontext = ctx', world = w, invoked = calls \<rparr>))"

text \<open>Lines 189-228: the values collected and the index after them, or the failure
  returned before anything is stored.\<close>

definition collectValues :: "'w ParsedArgument \<Rightarrow> string list \<Rightarrow> int
    \<Rightarrow> ProcessResult + string list \<times> int" where
  "collectValues argumentDef argv currentIndex =
     (let nextIdx = currentIndex + 1
      in if args argumentDef = - 1 then
           (case collectUnlimited argv nextIdx 0 [] of
              (argValues, j) \<Rightarrow> Inr (argValues, nextIdx + j))
         else
           (case collectFixed argumentDef argv nextIdx 0 [] of
              Inl failure \<Rightarrow> Inl failure
            | Inr argValues \<Rightarrow> Inr (argValues, nextIdx + args argumentDef)))"

definition processArgument :: "'w ParsedArgument \<Rightarrow> string list \<Rightarrow> int \<Rightarrow> 'w pstate
    \<Rightarrow> ProcessResult \<times> 'w pstate" where
  "processArgument argumentDef argv currentIndex st =
     (case collectValues argumentDef argv currentIndex of
        Inl failure \<Rightarrow> (failure, st)
      | Inr (argValues, nextIdx) \<Rightarrow> recordAndInvoke argumentDef argValues nextIdx st)"

subsection \<open>parse\<close>

datatype loop_exit = EarlyReturn ParseResult | LoopDone

definition unknownArgument :: "string \<Rightarrow> ParseResult" where
  "unknownArgument arg = \<lparr> success = False, error = Some (''Unknown argument: '' @ arg) \<rparr>"

text \<open>
  The \<^verbatim>\<open>while\<close> loop of lines 92-149.  The cursor need not grow, so the loop is a partial
  function: \<open>None\<close> means that it never ends.
\<close>

partial_function (option) walk :: "'w Shellish \<Rightarrow> string list \<Rightarrow> int \<Rightarrow> 'w pstate
    \<Rightarrow> (loop_exit \<times> 'w pstate) option" where
  "walk this argv i st =
     (if i < int (length argv) then
        (case at argv i of
           None \<Rightarrow> walk this argv (i + 1) st
         | Some arg \<Rightarrow>
             if arg = [] then walk this argv (i + 1) st
             else if startsWith arg ''--'' then
               (case Map_get (arguments this) (substring arg 2) of
                  None \<Rightarrow> Some (EarlyReturn (unknownArgument arg), st)
                | Some argumentDef \<Rightarrow>
                    (case processArgument argumentDef argv i st of
                       (result, st') \<Rightarrow>
                         if \<not> success result
                         then Some (EarlyReturn (ParseResult.truncate result), st')
                         else walk this argv (nextIndex result) st'))
             else if startsWith arg ''-'' \<and> length arg > 1 then
               (case Map_get (shortNameMap this) (substring arg 1) of
                  None \<Rightarrow> Some (EarlyReturn (unknownArgument arg), st)
                | Some lname \<Rightarrow>
                    if lname = [] then Some (EarlyReturn (unknownArgument arg), st)
                    else
                      (case Map_get (arguments this) lname of
                         None \<Rightarrow>
                           Some (EarlyReturn
                                  \<lparr> success = False,
                                    error = Some (''Internal error: argument definition not found for ''
                                                  @ lname) \<rparr>, st)
                       | Some argumentDef \<Rightarrow>
                           (case processArgument argumentDef argv i st of
                              (result, st') \<Rightarrow>
                                if \<not> success result
                                then Some (EarlyReturn (ParseResult.truncate result), st')
                                else walk this argv (nextIndex result) st')))
             else walk this argv (i + 1) st)
      else Some (LoopDone, st))"

declare walk.simps [code]

text \<open>The \<^verbatim>\<open>for\<close> loop of lines 152-163 over the entries of the registry, in insertion
  order: the failure returned from inside the loop, if any, and \<^verbatim>\<open>parsedArguments\<close>.\<close>

definition missingRequired :: "string \<Rightarrow> ParseResult" where
  "missingRequired l =
     \<lparr> success = False, error = Some (''Required argument --'' @ l @ '' is missing'') \<rparr>"

fun requiredPass :: "(string \<times> 'w ParsedArgument) list \<Rightarrow> jsobj
    \<Rightarrow> ParseResult option \<times> jsobj" where
  "requiredPass [] pa = (None, pa)"
| "requiredPass ((l, argDef) # rest) pa =
     (if required argDef \<and> \<not> hasProperty pa l then
        (case defaultValue argDef of
           Some v \<Rightarrow> requiredPass rest (assignProperty pa l v)
         | None \<Rightarrow> (Some (missingRequired l), pa))
      else requiredPass rest pa)"

text \<open>\<^verbatim>\<open>parse\<close> (lines 82-173), from the state \<open>w\<close> of the host.  Nothing in the body
  throws in this model, so the \<^verbatim>\<open>catch\<close> clause has no branch.\<close>

definition initialState :: "'w Shellish \<Rightarrow> string list \<Rightarrow> 'w \<Rightarrow> 'w pstate" where
  "initialState this argv w =
     \<lparr> pcontext = \<lparr> command = name (options this), remainingArgs = argv, allArgs = argv,
                   parsedArguments = emptyObject \<rparr>,
       world = w, invoked = [] \<rparr>"

definition afterWalk :: "'w Shellish \<Rightarrow> 'w pstate \<Rightarrow> ParseResult \<times> 'w pstate" where
  "afterWalk this st =
     (case requiredPass (arguments this) (parsedArguments (pcontext st)) of
        (r, pa) \<Rightarrow>
          ((case r of Some failure \<Rightarrow> failure | None \<Rightarrow> \<lparr> success = True, error = None \<rparr>),
           st\<lparr> pcontext := (pcontext st)\<lparr> parsedArguments := pa \<rparr> \<rparr>))"

definition parse :: "'w Shellish \<Rightarrow> string list \<Rightarrow> 'w \<Rightarrow> (ParseResult \<times> 'w pstate) option" where
  "parse this argv w =
     (case walk this argv 0 (initialState this argv w) of
        None \<Rightarrow> None
      | Some (EarlyReturn r, st) \<Rightarrow> Some (r, st)
      | Some (LoopDone, st) \<Rightarrow> Some (afterWalk this st))"

subsection \<open>Notions used to state the properties\<close>

text \<open>A value token: present, not empty, no leading dash (the negation of the test
  \<^verbatim>\<open>!nextArg || nextArg.startsWith('-')\<close>).\<close>

definition isValue :: "string \<Rightarrow> bool" where
  "isValue a = (a \<noteq> [] \<and> \<not> startsWith a ''-'')"

text \<open>The value tokens that follow the flag at index \<open>i\<close>.\<close>

definition valuesAfter :: "string list \<Rightarrow> int \<Rightarrow> string list" where
  "valuesAfter argv i = takeWhile isValue (drop (nat (i + 1)) argv)"

text \<open>What the branches of lines 96-148 make of one token, before any value is read.\<close>

datatype 'w resolution =
  NotAFlag | UnknownFlag | MissingDefinition string | Matched "'w ParsedArgument"

definition resolveToken :: "'w Shellish \<Rightarrow> string \<Rightarrow> 'w resolution" where
  "resolveToken this arg =
     (if arg = [] then NotAFlag
      else if startsWith arg ''--'' then
        (case Map_get (arguments this) (substring arg 2) of
           None \<Rightarrow> UnknownFlag
         | Some argumentDef \<Rightarrow> Matched argumentDef)
      else if startsWith arg ''-'' \<and> length arg > 1 then
        (case Map_get (shortNameMap this) (substring arg 1) of
           None \<Rightarrow> UnknownFlag
         | Some lname \<Rightarrow>
             if lname = [] then UnknownFlag
             else (case Map_get (arguments this) lname of
                     None \<Rightarrow> MissingDefinition lname
                   | Some argumentDef \<Rightarrow> Matched argumentDef))
      else NotAFlag)"

text \<open>The context that the callback of a definition is handed, with the value stored.\<close>

definition contextFor :: "'w ParsedArgument \<Rightarrow> string list \<Rightarrow> 'w pstate \<Rightarrow> ParsedContext" where
  "contextFor d vs st =
     (pcontext st)\<lparr> parsedArguments :=
        assignProperty (parsedArguments (pcontext st)) (longName d) (recordedValue (args d) vs) \<rparr>"

text \<open>The invariant of the two maps of a parser: every entry of \<open>arguments\<close> is stored
  under its own long name, and no key occurs twice.\<close>

definition wellFormed :: "'w Shellish \<Rightarrow> bool" where
  "wellFormed this =
     (distinct (map fst (arguments this)) \<and> distinct (map fst (shortNameMap this)) \<and>
      (\<forall>(k, d) \<in> set (arguments this). longName d = k))"

text \<open>The fields of a new instance, as their initialisers and line 15 leave them, before
  the constructor registers its default entries.\<close>

definition newShellish :: "ShellishOptions \<Rightarrow> 'w Shellish" where
  "newShellish opts = \<lparr> options = opts, arguments = [], shortNameMap = [] \<rparr>"

text \<open>The failure of a definition that is \<open>k\<close> value tokens short at the flag of index
  \<open>i\<close>: the result object built at lines 209-213 or 218-222.\<close>

definition shortfall :: "'w ParsedArgument \<Rightarrow> string list \<Rightarrow> int \<Rightarrow> int \<Rightarrow> ProcessResult" where
  "shortfall d argv i k =
     \<lparr> success = False,
       error = Some (if int (length argv) \<le> i + 1 + k
                     then insufficientProvided (longName d) (args d) k
                     else insufficientFound (longName d) (args d) (at argv (i + 1 + k))),
       nextIndex = i + 1 + k \<rparr>"

text \<open>\<^verbatim>\<open>cli.addArgument(...)\<close> used for its effect on the parser.\<close>

definition register :: "'w ArgumentOptions \<Rightarrow> 'w Shellish \<Rightarrow> 'w Shellish" where
  "register ao this = snd (addArgument ao this)"

text \<open>
  The constructor (lines 14-42): it registers \<^verbatim>\<open>help\<close> with the short name \<^verbatim>\<open>h\<close> and,
  when the option \<^verbatim>\<open>version\<close> is truthy, \<^verbatim>\<open>version\<close> with the short name \<^verbatim>\<open>v\<close>.  Their
  callbacks print and call \<^verbatim>\<open>process.exit(0)\<close>, which no callback of the model does: they
  are parameters here, and the properties below say nothing of a parse that invokes
  one of them.
\<close>

definition constructor :: "ShellishOptions \<Rightarrow> 'w callback_fn \<Rightarrow> 'w callback_fn \<Rightarrow> 'w Shellish" where
  "constructor opts helpCallback versionCallback =
     (let this = register \<lparr> opt_longName = ''help'', opt_shortName = Some ''h'',
                            opt_description = ''Show help information'', opt_args = Some 0,
                            opt_required = None, opt_defaultValue = None,
                            opt_callback = helpCallback \<rparr> (newShellish opts)
      in if (case version opts of None \<Rightarrow> False | Some v \<Rightarrow> v \<noteq> [])
         then register \<lparr> opt_longName = ''version'', opt_shortName = Some ''v'',
                          opt_description = ''Show version information'', opt_args = Some 0,
                          opt_required = None, opt_defaultValue = None,
                          opt_callback = versionCallback \<rparr> this
         else this)"

subsection \<open>A parser to run the properties on\<close>

text \<open>The arguments that the test suite registers, on a parser without the default
  entries (their callbacks end the process); the host state counts the callbacks that
  returned, which leave the context as they find it.\<close>

definition testOptions :: ShellishOptions where
  "testOptions = \<lparr> name = ''test-cli'', cli_description = ''A test CLI application'',
                   version = None, author = None, helpText = None \<rparr>"

definition countCall :: "nat callback_fn" where
  "countCall vs c w = Returned c (w + 1)"

definition failCall :: "nat callback_fn" where
  "failCall vs c w = Threw (ErrorObj ''Callback error'') c w"

definition argOpts :: "string \<Rightarrow> string option \<Rightarrow> int \<Rightarrow> bool \<Rightarrow> jsval option
    \<Rightarrow> 'w callback_fn \<Rightarrow> 'w ArgumentOptions" where
  "argOpts l s n r dv cb =
     \<lparr> opt_longName = l, opt_shortName = s, opt_description = [], opt_args = Some n,
       opt_required = Some r, opt_defaultValue = dv, opt_callback = cb \<rparr>"

definition testCli :: "nat Shellish" where
  "testCli =
     register (argOpts ''error'' None 0 False None failCall)
       (register (argOpts ''exclude'' None (- 1) False None countCall)
         (register (argOpts ''files'' None 3 False None countCall)
           (register (argOpts ''file'' (Some ''f'') 1 False None countCall)
             (register (argOpts ''verbose'' (Some ''v'') 0 False None countCall)
               (newShellish testOptions)))))"

definition parsedArg :: "string \<Rightarrow> string option \<Rightarrow> int \<Rightarrow> bool \<Rightarrow> jsval option
    \<Rightarrow> 'w callback_fn \<Rightarrow> 'w ParsedArgument" where
  "parsedArg l s n r dv cb =
     \<lparr> longName = l, shortName = s, description = [], args = n, required = r,
       defaultValue = dv, callback = cb \<rparr>"

text \<open>The state in which \<^verbatim>\<open>parse\<close> of \<open>testCli\<close> reaches its second token, after a
  first token \<^verbatim>\<open>--verbose\<close>.\<close>

definition afterVerbose :: "string list \<Rightarrow> nat pstate" where
  "afterVerbose argv =
     \<lparr> pcontext = \<lparr> command = ''test-cli'', remainingArgs = argv, allArgs = argv,
                    parsedArguments = \<lparr> own = [''verbose'' \<mapsto> JTrue], protoArray = None \<rparr> \<rparr>,
       world = 1, invoked = [(''verbose'', [])] \<rparr>"

text \<open>One turn of the loop of \<^verbatim>\<open>parse\<close> in terms of \<open>resolveToken\<close>, with the rest of
  the loop as \<open>k\<close>.\<close>

definition walkStep :: "'w Shellish \<Rightarrow> string list
    \<Rightarrow> (int \<Rightarrow> 'w pstate \<Rightarrow> (loop_exit \<times> 'w pstate) option)
    \<Rightarrow> int \<Rightarrow> 'w pstate \<Rightarrow> (loop_exit \<times> 'w pstate) option" where
  "walkStep this argv k i st =
     (if i < int (length argv) then
        (case at argv i of
           None \<Rightarrow> k (i + 1) st
         | Some arg \<Rightarrow>
             (case resolveToken this arg of
                NotAFlag \<Rightarrow> k (i + 1) st
              | UnknownFlag \<Rightarrow> Some (EarlyReturn (unknownArgument arg), st)
              | MissingDefinition l \<Rightarrow>
                  Some (EarlyReturn
                         \<lparr> success = False,
                           error = Some (''Internal error: argument definition not found for '' @ l) \<rparr>,
                        st)
              | Matched d \<Rightarrow>
                  (case processArgument d argv i st of
                     (result, st') \<Rightarrow>
                       if \<not> success result
                       then Some (EarlyReturn (ParseResult.truncate result), st')
                       else k (nextIndex result) st')))
      else Some (LoopDone, st))"

text \<open>The post-parse pass in the words of the specification: an entry of the registry is
  a fatal gap when it is flagged required, its long name is not in \<^verbatim>\<open>parsedArguments\<close>
  and it has no default; the entries flagged required whose long name is not in
  \<^verbatim>\<open>parsedArguments\<close> and that have a default receive it.\<close>

definition missingWithoutDefault :: "jsobj \<Rightarrow> string \<times> 'w ParsedArgument \<Rightarrow> bool" where
  "missingWithoutDefault pa e =
     (required (snd e) \<and> \<not> hasProperty pa (fst e) \<and> defaultValue (snd e) = None)"

definition withDefaults :: "(string \<times> 'w ParsedArgument) list \<Rightarrow> jsobj \<Rightarrow> jsobj" where
  "withDefaults entries pa =
     pa\<lparr> own :=
          (\<lambda>l. case own pa l of
                 Some x \<Rightarrow> Some x
               | None \<Rightarrow>
                   if inherits pa l then None
                   else (case map_of entries l of
                           Some d \<Rightarrow> if required d then defaultValue d else None
                         | None \<Rightarrow> None)) \<rparr>"

text \<open>The parser of the detailed example of the README, with every argument required:
  only \<open>output\<close> has a default.\<close>

definition requiredCli :: "nat Shellish" where
  "requiredCli =
     register (argOpts ''format'' None 1 True None countCall)
       (register (argOpts ''input'' (Some ''i'') 1 True None countCall)
         (register (argOpts ''output'' (Some ''o'') 1 True (Some (JString ''./output'')) countCall)
           (newShellish testOptions)))"

text \<open>The parser of the test of default values: one required argument with a default,
  and a flag.\<close>

definition defaultCli :: "nat Shellish" where
  "defaultCli =
     register (argOpts ''verbose'' (Some ''v'') 0 False None countCall)
       (register (argOpts ''optional'' None 1 True (Some (JString ''default-value'')) countCall)
         (newShellish testOptions))"

text \<open>A token names a long name when it resolves to a definition of that long name.\<close>

definition namedIn :: "'w Shellish \<Rightarrow> string list \<Rightarrow> string \<Rightarrow> bool" where
  "namedIn this argv l =
     list_ex (\<lambda>arg. case resolveToken this arg of Matched d \<Rightarrow> longName d = l | _ \<Rightarrow> False) argv"

text \<open>A parser with one definition of arity \<open>-2\<close>.\<close>

definition negativeCli :: "nat Shellish" where
  "negativeCli = register (argOpts ''x'' None (- 2) False None countCall) (newShellish testOptions)"

text \<open>Two contexts with the same \<^verbatim>\<open>parsedArguments\<close> and the same \<^verbatim>\<open>command\<close>, and two
  states of a parse with such contexts, the same state of the host and the same log of
  invocations: they can differ in the copies of the input that the context carries.  A
  callback ignores the input when it does the same in any two contexts that differ in
  those copies only, and leaves contexts that differ in those copies only.\<close>

definition sameContext :: "ParsedContext \<Rightarrow> ParsedContext \<Rightarrow> bool" where
  "sameContext c1 c2 = (parsedArguments c1 = parsedArguments c2 \<and> command c1 = command c2)"

fun sameEffect :: "'w cb_result \<Rightarrow> 'w cb_result \<Rightarrow> bool" where
  "sameEffect (Returned c1 w1) (Returned c2 w2) = (sameContext c1 c2 \<and> w1 = w2)"
| "sameEffect (Threw f1 c1 w1) (Threw f2 c2 w2) = (f1 = f2 \<and> sameContext c1 c2 \<and> w1 = w2)"
| "sameEffect _ _ = False"

definition sameOutcome :: "'w pstate \<Rightarrow> 'w pstate \<Rightarrow> bool" where
  "sameOutcome st1 st2 =
     (world st1 = world st2 \<and> invoked st1 = invoked st2 \<and>
      parsedArguments (pcontext st1) = parsedArguments (pcontext st2) \<and>
      command (pcontext st1) = command (pcontext st2))"

definition ignoresInput :: "'w callback_fn \<Rightarrow> bool" where
  "ignoresInput cb =
     (\<forall>vs c1 c2 w. sameContext c1 c2 \<longrightarrow> sameEffect (cb vs c1 w) (cb vs c2 w))"

text \<open>Three parsers with one flag each: a short name that starts with a dash, an empty
  long name, and a callback that throws when the input is the long form of its flag.\<close>

definition dashCli :: "nat Shellish" where
  "dashCli = register (argOpts ''verbose'' (Some ''-v'') 0 False None countCall)
               (newShellish testOptions)"

definition emptyCli :: "nat Shellish" where
  "emptyCli = register (argOpts [] (Some ''e'') 0 False None countCall) (newShellish testOptions)"

definition peekCall :: "nat callback_fn" where
  "peekCall vs c w =
     (if allArgs c = [''--peek''] then Threw (ErrorObj ''long form'') c w
      else Returned c (w + 1))"

definition peekCli :: "nat Shellish" where
  "peekCli = register (argOpts ''peek'' (Some ''p'') 0 False None peekCall) (newShellish testOptions)"

text \<open>Parsers whose long names are names of \<^verbatim>\<open>Object.prototype\<close>: a flag \<^verbatim>\<open>__proto__\<close>,
  a required \<^verbatim>\<open>constructor\<close> without a default, and a required \<^verbatim>\<open>toString\<close> with a
  default.\<close>

definition protoCli :: "nat Shellish" where
  "protoCli = register (argOpts ''__proto__'' None 0 False None countCall)
                (newShellish testOptions)"

definition constructorCli :: "nat Shellish" where
  "constructorCli = register (argOpts ''constructor'' None 1 True None countCall)
                      (newShellish testOptions)"

definition toStringCli :: "nat Shellish" where
  "toStringCli = register (argOpts ''toString'' None 1 True (Some (JString ''text'')) countCall)
                   (newShellish testOptions)"

text \<open>A callback that writes \<^verbatim>\<open>context.parsedArguments.optional = 'written'\<close>, and the
  parser of the test of default values with this callback on its flag.\<close>

definition writeCall :: "nat callback_fn" where
  "writeCall vs c w =
     Returned (c\<lparr> parsedArguments :=
                   assignProperty (parsedArguments c) ''optional'' (JString ''written'') \<rparr>)
              (w + 1)"

definition writeCli :: "nat Shellish" where
  "writeCli =
     register (argOpts ''verbose'' (Some ''v'') 0 False None writeCall)
       (register (argOpts ''optional'' None 1 True (Some (JString ''default-value'')) countCall)
         (newShellish testOptions))"

section \<open>Properties\<close>

subsection \<open>Arrays, maps and the test parser\<close>

lemma at_Some: "0 \<le> i \<Longrightarrow> i < int (length xs) \<Longrightarrow> at xs i = Some (xs ! nat i)"
  by (simp add: at_def)

lemma at_None: "int (length xs) \<le> i \<Longrightarrow> at xs i = None"
  by (simp add: at_def)

lemma at_Cons_0 [simp]: "at (x # xs) 0 = Some x"
  by (simp add: at_def)

lemma Map_has_get: "Map_has m k = (Map_get m k \<noteq> None)"
  by (simp add: Map_has_def Map_get_def)

lemma testCli_arguments:
  "arguments testCli =
     [(''verbose'', parsedArg ''verbose'' (Some ''v'') 0 False None countCall),
      (''file'', parsedArg ''file'' (Some ''f'') 1 False None countCall),
      (''files'', parsedArg ''files'' None 3 False None countCall),
      (''exclude'', parsedArg ''exclude'' None (- 1) False None countCall),
      (''error'', parsedArg ''error'' None 0 False None failCall)]"
  by (simp add: testCli_def register_def addArgument_def argOpts_def newShellish_def
      parsedArg_def Map_has_def)

lemma testCli_shortNameMap: "shortNameMap testCli = [(''v'', ''verbose''), (''f'', ''file'')]"
  by (simp add: testCli_def register_def addArgument_def argOpts_def newShellish_def Map_has_def)

subsection \<open>The invariant of the registry\<close>

lemma Map_has_keys: "Map_has m k \<longleftrightarrow> k \<in> fst ` set m"
  by (simp add: Map_has_def map_of_eq_None_iff)

lemma Map_set_fresh: "k \<notin> fst ` set m \<Longrightarrow> Map_set m k v = m @ [(k, v)]"
  by (induction m) auto

lemma newShellish_wellFormed: "wellFormed (newShellish opts)"
  by (simp add: wellFormed_def newShellish_def)

lemma addArgument_wellFormed:
  assumes "wellFormed this"
  shows "wellFormed (snd (addArgument ao this))"
proof (cases "Map_has (arguments this) (opt_longName ao)")
  case True
  with assms show ?thesis by (simp add: addArgument_def Let_def)
next
  case False
  then have a: "Map_set (arguments this) (opt_longName ao) d
                  = arguments this @ [(opt_longName ao, d)]" for d
    by (simp add: Map_has_keys Map_set_fresh)
  have s: "\<not> Map_has (shortNameMap this) s \<Longrightarrow>
           Map_set (shortNameMap this) s l = shortNameMap this @ [(s, l)]" for s l
    by (simp add: Map_has_keys Map_set_fresh)
  from False have f: "opt_longName ao \<notin> fst ` set (arguments this)"
    by (simp add: Map_has_keys)
  show ?thesis
    using assms False f a s
    by (auto simp: addArgument_def Let_def wellFormed_def Map_has_keys split: option.splits)
qed

text \<open>A parser as the constructor leaves it satisfies the invariant, holds \<^verbatim>\<open>help\<close> as
  its first entry and resolves \<^verbatim>\<open>h\<close> to it.\<close>

lemma constructor_wellFormed: "wellFormed (constructor opts helpCallback versionCallback)"
  by (simp add: constructor_def Let_def register_def addArgument_wellFormed
      newShellish_wellFormed)

lemma constructor_help:
  "Map_get (arguments (constructor opts helpCallback versionCallback)) ''help''
     = Some \<lparr> longName = ''help'', shortName = Some ''h'',
              description = ''Show help information'', args = 0, required = False,
              defaultValue = None, callback = helpCallback \<rparr> \<and>
   Map_get (shortNameMap (constructor opts helpCallback versionCallback)) ''h'' = Some ''help''"
  by (simp add: constructor_def Let_def register_def addArgument_def newShellish_def
      Map_has_def Map_get_def)

subsection \<open>Registration\<close>

text \<open>
  C8, as amended.  \<^verbatim>\<open>addArgument\<close> tests the long name first: a definition whose long
  name is already present is rejected with \<open>DuplicateLongName\<close>; one whose long name is
  new and whose (non-empty) short name is already present is rejected with
  \<open>DuplicateShortName\<close>; a rejected registration leaves the parser as it was, so every
  earlier entry and every earlier short name is still there.
\<close>

theorem addArgument_rejects_duplicates:
  "(Map_has (arguments this) (opt_longName ao) \<longrightarrow>
      addArgument ao this = (Some (DuplicateLongName (opt_longName ao)), this)) \<and>
   (\<not> Map_has (arguments this) (opt_longName ao) \<and> opt_shortName ao = Some s \<and> s \<noteq> [] \<and>
    Map_has (shortNameMap this) s \<longrightarrow>
      addArgument ao this = (Some (DuplicateShortName s), this)) \<and>
   (fst (addArgument ao this) \<noteq> None \<longrightarrow> snd (addArgument ao this) = this)"
  by (auto simp: addArgument_def Let_def split: option.splits)

theorem addArgument_rejects_duplicates_witness:
  "Map_has (arguments testCli) ''verbose'' \<and>
   addArgument (argOpts ''verbose'' None 0 False None countCall) testCli =
     (Some (DuplicateLongName ''verbose''), testCli) \<and>
   \<not> Map_has (arguments testCli) ''quiet'' \<and> Map_has (shortNameMap testCli) ''v'' \<and>
   addArgument (argOpts ''quiet'' (Some ''v'') 0 False None countCall) testCli =
     (Some (DuplicateShortName ''v''), testCli) \<and>
   Map_get (shortNameMap (snd (addArgument (argOpts ''quiet'' (Some ''v'') 0 False None countCall) testCli))) ''v''
     = Some ''verbose''"
proof -
  have l: "Map_has (arguments testCli) ''verbose''"
    by (simp add: Map_has_def testCli_arguments)
  have nl: "\<not> Map_has (arguments testCli) ''quiet''"
    by (simp add: Map_has_def testCli_arguments)
  have sh: "Map_has (shortNameMap testCli) ''v''"
    by (simp add: Map_has_def testCli_shortNameMap)
  have g: "Map_get (shortNameMap testCli) ''v'' = Some ''verbose''"
    by (simp add: Map_get_def testCli_shortNameMap)
  show ?thesis
    using addArgument_rejects_duplicates
            [of testCli "argOpts ''verbose'' None 0 False None countCall" "''v''"]
          addArgument_rejects_duplicates
            [of testCli "argOpts ''quiet'' (Some ''v'') 0 False None countCall" "''v''"]
          l nl sh g
    by (simp add: argOpts_def)
qed

text \<open>C8 as stated fails where both names are taken: the short name \<open>v\<close> is already
  present, and the registration is rejected for its long name.\<close>

theorem addArgument_both_duplicate_counterexample:
  "Map_has (shortNameMap testCli) ''v'' \<and>
   fst (addArgument (argOpts ''verbose'' (Some ''v'') 0 False None countCall) testCli)
     = Some (DuplicateLongName ''verbose'') \<and>
   fst (addArgument (argOpts ''verbose'' (Some ''v'') 0 False None countCall) testCli)
     \<noteq> Some (DuplicateShortName ''v'')"
  by (simp add: Map_has_def testCli_shortNameMap testCli_arguments addArgument_def argOpts_def)

subsection \<open>The two collection loops\<close>

lemma drop_nat_step:
  assumes "0 \<le> k" "k < int (length xs)"
  shows "drop (nat k) xs = xs ! nat k # drop (nat (k + 1)) xs"
proof -
  have "nat k < length xs" using assms by linarith
  moreover have "nat (k + 1) = Suc (nat k)" using assms by linarith
  ultimately show ?thesis by (simp add: Cons_nth_drop_Suc)
qed

lemma collectUnlimited_takeWhile:
  "0 \<le> n + j \<Longrightarrow>
   collectUnlimited argv n j acc =
     (acc @ takeWhile isValue (drop (nat (n + j)) argv),
      j + int (length (takeWhile isValue (drop (nat (n + j)) argv))))"
proof (induction argv n j acc rule: collectUnlimited.induct)
  case (1 argv n j acc)
  show ?case
  proof (cases "n + j < int (length argv)")
    case False
    then show ?thesis by (subst collectUnlimited.simps) simp
  next
    case True
    have dr: "drop (nat (n + j)) argv = argv ! nat (n + j) # drop (nat (n + (j + 1))) argv"
      using drop_nat_step [OF "1.prems" True] by (simp add: add.assoc)
    note a = at_Some [OF "1.prems" True]
    show ?thesis
    proof (cases "isValue (argv ! nat (n + j))")
      case False
      then show ?thesis using True a dr
        by (subst collectUnlimited.simps) (auto simp: isValue_def)
    next
      case v: True
      have nv: "\<not> (argv ! nat (n + j) = [] \<or> startsWith (argv ! nat (n + j)) ''-'')"
        using v by (simp add: isValue_def)
      have "collectUnlimited argv n j acc = collectUnlimited argv n (j + 1) (acc @ [argv ! nat (n + j)])"
        using True a nv by (subst collectUnlimited.simps) simp
      also have "\<dots> = ((acc @ [argv ! nat (n + j)]) @ takeWhile isValue (drop (nat (n + (j + 1))) argv),
          (j + 1) + int (length (takeWhile isValue (drop (nat (n + (j + 1))) argv))))"
        using "1.IH" [OF True a nv] "1.prems" by simp
      finally show ?thesis using dr v by simp
    qed
  qed
qed

lemma collectFixed_done: "args d \<le> j \<Longrightarrow> collectFixed d argv n j acc = Inr acc"
  by (subst collectFixed.simps) simp

lemma collectFixed_char:
  "0 \<le> n + j \<Longrightarrow> j \<le> args d \<Longrightarrow>
   collectFixed d argv n j acc =
     (if args d - j \<le> int (length (takeWhile isValue (drop (nat (n + j)) argv)))
      then Inr (acc @ take (nat (args d - j)) (drop (nat (n + j)) argv))
      else Inl (shortfall d argv (n - 1) (j + int (length (takeWhile isValue (drop (nat (n + j)) argv))))))"
proof (induction d argv n j acc rule: collectFixed.induct)
  case (1 d argv n j acc)
  show ?case
  proof (cases "j < args d")
    case False
    then show ?thesis using "1.prems" by (simp add: collectFixed_done)
  next
    case lt: True
    show ?thesis
    proof (cases "n + j < int (length argv)")
      case False
      then show ?thesis using lt
        by (subst collectFixed.simps) (simp add: shortfall_def)
    next
      case True
      have dr: "drop (nat (n + j)) argv = argv ! nat (n + j) # drop (nat (n + (j + 1))) argv"
        using drop_nat_step [OF "1.prems"(1) True] by (simp add: add.assoc)
      note a = at_Some [OF "1.prems"(1) True]
      show ?thesis
      proof (cases "isValue (argv ! nat (n + j))")
        case False
        then show ?thesis using True a dr lt
          by (subst collectFixed.simps) (auto simp: isValue_def shortfall_def)
      next
        case v: True
        have nv: "\<not> (argv ! nat (n + j) = [] \<or> startsWith (argv ! nat (n + j)) ''-'')"
          using v by (simp add: isValue_def)
        have step: "collectFixed d argv n j acc = collectFixed d argv n (j + 1) (acc @ [argv ! nat (n + j)])"
          using True a nv lt by (subst collectFixed.simps) simp
        have ih: "collectFixed d argv n (j + 1) (acc @ [argv ! nat (n + j)]) =
          (if args d - (j + 1) \<le> int (length (takeWhile isValue (drop (nat (n + (j + 1))) argv)))
           then Inr ((acc @ [argv ! nat (n + j)]) @ take (nat (args d - (j + 1))) (drop (nat (n + (j + 1))) argv))
           else Inl (shortfall d argv (n - 1) ((j + 1) + int (length (takeWhile isValue (drop (nat (n + (j + 1))) argv))))))"
          using "1.IH" [OF lt _ a nv] True "1.prems" lt by simp
        have tk: "take (nat (args d - j)) (drop (nat (n + j)) argv) =
                  argv ! nat (n + j) # take (nat (args d - (j + 1))) (drop (nat (n + (j + 1))) argv)"
        proof -
          have "nat (args d - j) = Suc (nat (args d - (j + 1)))" using lt by linarith
          then show ?thesis using dr by simp
        qed
        show ?thesis unfolding step ih using dr v tk
          by (simp add: add.assoc)
      qed
    qed
  qed
qed

lemma collectFixed_length:
  "collectFixed d argv n j acc = Inr vs \<Longrightarrow> j \<le> args d \<Longrightarrow>
   int (length vs) = int (length acc) + (args d - j)"
proof (induction d argv n j acc rule: collectFixed.induct)
  case (1 d argv n j acc)
  show ?case
  proof (cases "j < args d")
    case False
    then show ?thesis using "1.prems" by (simp add: collectFixed_done)
  next
    case lt: True
    from "1.prems"(1) lt obtain a where
      a: "at argv (n + j) = Some a" "\<not> (a = [] \<or> startsWith a ''-'')"
         "\<not> int (length argv) \<le> n + j"
      and rec: "collectFixed d argv n (j + 1) (acc @ [a]) = Inr vs"
      by (subst (asm) collectFixed.simps) (auto split: if_splits option.splits)
    have "int (length vs) = int (length (acc @ [a])) + (args d - (j + 1))"
      using "1.IH" [OF lt a(3) a(1) a(2) rec] lt by simp
    then show ?thesis by simp
  qed
qed

subsection \<open>One turn of the loop\<close>

lemma walk_unfold:
  "walk this argv i st =
     (if i < int (length argv) then
        (case at argv i of
           None \<Rightarrow> walk this argv (i + 1) st
         | Some arg \<Rightarrow>
             (case resolveToken this arg of
                NotAFlag \<Rightarrow> walk this argv (i + 1) st
              | UnknownFlag \<Rightarrow> Some (EarlyReturn (unknownArgument arg), st)
              | MissingDefinition l \<Rightarrow>
                  Some (EarlyReturn
                         \<lparr> success = False,
                           error = Some (''Internal error: argument definition not found for '' @ l) \<rparr>,
                        st)
              | Matched d \<Rightarrow>
                  (case processArgument d argv i st of
                     (result, st') \<Rightarrow>
                       if \<not> success result
                       then Some (EarlyReturn (ParseResult.truncate result), st')
                       else walk this argv (nextIndex result) st')))
      else Some (LoopDone, st))"
  by (subst walk.simps) (simp add: resolveToken_def split: option.splits)

lemma processArgument_collected:
  "collectValues d argv i = Inr (vs, n) \<Longrightarrow>
   processArgument d argv i st = recordAndInvoke d vs n st"
  by (simp add: processArgument_def)

lemma processArgument_short:
  "collectValues d argv i = Inl failure \<Longrightarrow> processArgument d argv i st = (failure, st)"
  by (simp add: processArgument_def)

lemma recordAndInvoke_state:
  "snd (recordAndInvoke d vs n st) =
     (case callback d vs (contextFor d vs st) (world st) of
        Returned c w \<Rightarrow>
          \<lparr> pcontext = c, world = w, invoked = invoked st @ [(longName d, vs)] \<rparr>
      | Threw f c w \<Rightarrow>
          \<lparr> pcontext = c, world = w, invoked = invoked st @ [(longName d, vs)] \<rparr>)"
  by (simp add: recordAndInvoke_def contextFor_def Let_def split: cb_result.splits)

lemma recordAndInvoke_result:
  "fst (recordAndInvoke d vs n st) =
     (case callback d vs (contextFor d vs st) (world st) of
        Returned c w \<Rightarrow> \<lparr> success = True, error = None, nextIndex = n \<rparr>
      | Threw f c w \<Rightarrow>
          \<lparr> success = False, error = Some (callbackFailure (longName d) f), nextIndex = n \<rparr>)"
  by (simp add: recordAndInvoke_def contextFor_def Let_def split: cb_result.splits)

lemma recordAndInvoke_invoked:
  "invoked (snd (recordAndInvoke d vs n st)) = invoked st @ [(longName d, vs)]"
  by (simp add: recordAndInvoke_state split: cb_result.splits)

lemma collectValues_arity:
  assumes "collectValues d argv i = Inr (vs, n)"
  shows "(args d = 0 \<longrightarrow> vs = []) \<and> (args d = 1 \<longrightarrow> (\<exists>v. vs = [v]))"
proof (cases "args d = - 1")
  case True
  then show ?thesis by simp
next
  case False
  with assms have c: "collectFixed d argv (i + 1) 0 [] = Inr vs"
    by (auto simp: collectValues_def Let_def split: sum.splits)
  have "0 \<le> args d \<Longrightarrow> int (length vs) = args d"
    using collectFixed_length [OF c] by simp
  then show ?thesis
    by (auto simp: length_Suc_conv)
qed

subsection \<open>Storing the value and running the callback\<close>

text \<open>
  Away from the long name \<^verbatim>\<open>__proto__\<close>, the value that line 229 stores in the context
  handed to the callback is \<^verbatim>\<open>true\<close> for arity 0, where nothing was collected; the one
  collected string itself for arity 1; and the sequence of the collected strings, in
  order, for every other arity.
\<close>

lemma recordedValue_three_way:
  assumes "collectValues d argv i = Inr (vs, n)"
  shows "(args d = 0 \<longrightarrow> vs = [] \<and> recordedValue (args d) vs = JTrue) \<and>
         (args d = 1 \<longrightarrow> (\<exists>v. vs = [v] \<and> recordedValue (args d) vs = JString v)) \<and>
         (2 \<le> args d \<or> args d = - 1 \<longrightarrow> recordedValue (args d) vs = JArray vs)"
  using collectValues_arity [OF assms] by (auto simp: recordedValue_def)

lemma contextFor_stored:
  "longName d \<noteq> ''__proto__'' \<Longrightarrow>
   own (parsedArguments (contextFor d vs st)) (longName d) = Some (recordedValue (args d) vs)"
  by (simp add: contextFor_def assignProperty_def)

lemma contextFor_proto:
  "own (parsedArguments (pcontext st)) ''__proto__'' = None \<Longrightarrow> longName d = ''__proto__'' \<Longrightarrow>
   own (parsedArguments (contextFor d vs st)) = own (parsedArguments (pcontext st))"
  by (simp add: contextFor_def assignProperty_def split: jsval.splits)

lemma testCli_collect_files:
  "collectValues (parsedArg ''files'' None 3 False None countCall)
      [''--files'', ''a.txt'', ''b.txt'', ''c.txt''] 0
     = Inr ([''a.txt'', ''b.txt'', ''c.txt''], 4)"
  by (simp add: collectValues_def parsedArg_def collectFixed.simps at_def startsWith_def)

lemma contextFor_proto_array:
  assumes "own (parsedArguments (pcontext st)) ''__proto__'' = None"
    and "longName d = ''__proto__''" and "args d \<noteq> 0" and "args d \<noteq> 1"
  shows "parsedArguments (contextFor d vs st)
           = (parsedArguments (pcontext st))\<lparr> protoArray := Some vs \<rparr>"
  using assms by (simp add: contextFor_def assignProperty_def recordedValue_def)

lemma protoCli_arguments:
  "arguments protoCli = [(''__proto__'', parsedArg ''__proto__'' None 0 False None countCall)]"
  by (simp add: protoCli_def register_def addArgument_def argOpts_def newShellish_def
      parsedArg_def Map_has_def)

text \<open>
  C3.  A flag of arity 0 registered under the long name \<^verbatim>\<open>__proto__\<close>: the parse of
  \<^verbatim>\<open>--__proto__\<close> matches the definition, runs its callback and succeeds, and
  \<^verbatim>\<open>parsedArguments\<close> is still the empty object: \<^verbatim>\<open>true\<close> is not recorded under the long
  name, neither in the context handed to the callback nor in the one that \<^verbatim>\<open>parse\<close>
  leaves.
\<close>

theorem proto_flag_records_nothing:
  "parse protoCli [''--__proto__''] 0 =
     Some (\<lparr> success = True, error = None \<rparr>,
           \<lparr> pcontext = \<lparr> command = ''test-cli'', remainingArgs = [''--__proto__''],
                          allArgs = [''--__proto__''], parsedArguments = emptyObject \<rparr>,
             world = 1, invoked = [(''__proto__'', [])] \<rparr>) \<and>
   contextFor (parsedArg ''__proto__'' None 0 False None countCall) []
       (initialState protoCli [''--__proto__''] 0) =
     \<lparr> command = ''test-cli'', remainingArgs = [''--__proto__''],
       allArgs = [''--__proto__''], parsedArguments = emptyObject \<rparr>"
proof -
  let ?argv = "[''--__proto__'']"
  let ?d = "parsedArg ''__proto__'' None 0 False None countCall"
  let ?st = "\<lparr> pcontext = \<lparr> command = ''test-cli'', remainingArgs = ?argv,
                          allArgs = ?argv, parsedArguments = emptyObject \<rparr>,
              world = 1, invoked = [(''__proto__'', [])] \<rparr>"
  have i: "initialState protoCli ?argv 0 =
             \<lparr> pcontext = \<lparr> command = ''test-cli'', remainingArgs = ?argv,
                          allArgs = ?argv, parsedArguments = emptyObject \<rparr>,
               world = 0, invoked = [] \<rparr>"
    by (simp add: initialState_def protoCli_def register_def addArgument_def argOpts_def
        newShellish_def testOptions_def Map_has_def)
  have r: "resolveToken protoCli ''--__proto__'' = Matched ?d"
    by (simp add: resolveToken_def startsWith_def substring_def Map_get_def protoCli_arguments)
  have c: "collectValues ?d ?argv 0 = Inr ([], 1)"
    by (simp add: collectValues_def parsedArg_def collectFixed.simps)
  have x: "contextFor ?d [] (initialState protoCli ?argv 0) =
             \<lparr> command = ''test-cli'', remainingArgs = ?argv, allArgs = ?argv,
               parsedArguments = emptyObject \<rparr>"
    unfolding i
    by (simp add: contextFor_def parsedArg_def assignProperty_def emptyObject_def
        recordedValue_def)
  have p: "processArgument ?d ?argv 0 (initialState protoCli ?argv 0)
             = (\<lparr> success = True, error = None, nextIndex = 1 \<rparr>, ?st)"
    unfolding processArgument_collected [OF c]
    using recordAndInvoke_result [of ?d "[]" 1 "initialState protoCli ?argv 0"]
      recordAndInvoke_state [of ?d "[]" 1 "initialState protoCli ?argv 0"]
    unfolding x
    by (simp add: prod_eq_iff parsedArg_def countCall_def i)
  have w1: "walk protoCli ?argv 1 ?st = Some (LoopDone, ?st)"
    by (subst walk_unfold) simp
  have w: "walk protoCli ?argv 0 (initialState protoCli ?argv 0) = Some (LoopDone, ?st)"
    using w1 by (subst walk_unfold) (simp add: r p)
  have a: "afterWalk protoCli ?st = (\<lparr> success = True, error = None \<rparr>, ?st)"
    by (simp add: afterWalk_def protoCli_arguments parsedArg_def)
  have "parse protoCli ?argv 0 = Some (\<lparr> success = True, error = None \<rparr>, ?st)"
    unfolding parse_def w by (simp only: a loop_exit.case prod.case option.case)
  with x show ?thesis by (simp only: simp_thms)
qed

subsection \<open>Results of the token loop\<close>



lemma parse_done:
  "walk this argv 0 (initialState this argv w) = Some (LoopDone, st) \<Longrightarrow>
   parse this argv w = Some (afterWalk this st)"
  by (simp add: parse_def)

subsection \<open>Callback failures\<close>







subsection \<open>Collecting values\<close>

lemma collectValues_unlimited:
  assumes "args d = - 1" and "0 \<le> i"
  shows "collectValues d argv i =
           Inr (valuesAfter argv i, i + 1 + int (length (valuesAfter argv i)))"
  using assms collectUnlimited_takeWhile [of "i + 1" 0 argv "[]"]
  by (simp add: collectValues_def valuesAfter_def Let_def)

lemma collectValues_fixed:
  assumes "0 \<le> args d" and "0 \<le> i"
  shows "collectValues d argv i =
           (if args d \<le> int (length (valuesAfter argv i))
            then Inr (take (nat (args d)) (drop (nat (i + 1)) argv), i + 1 + args d)
            else Inl (shortfall d argv i (int (length (valuesAfter argv i)))))"
  using assms collectFixed_char [of "i + 1" 0 d argv "[]"]
  by (auto simp: collectValues_def valuesAfter_def Let_def)

lemma valuesAfter_stops:
  assumes "0 \<le> i" and "i + 1 + int (length (valuesAfter argv i)) < int (length argv)"
  shows "\<not> isValue (argv ! nat (i + 1 + int (length (valuesAfter argv i))))"
proof -
  let ?xs = "drop (nat (i + 1)) argv"
  let ?k = "length (takeWhile isValue ?xs)"
  have k: "length (valuesAfter argv i) = ?k" by (simp add: valuesAfter_def)
  have "?k < length ?xs" using assms unfolding k by auto
  then have "\<not> isValue (?xs ! ?k)" by (rule nth_length_takeWhile)
  moreover have "?xs ! ?k = argv ! (nat (i + 1) + ?k)"
    using assms unfolding k by (intro nth_drop) linarith
  moreover have "nat (i + 1) + ?k = nat (i + 1 + int ?k)" using assms(1) by linarith
  ultimately show ?thesis unfolding k by simp
qed

lemma walk_matched_returned:
  assumes "at argv i = Some arg"
    and "resolveToken this arg = Matched d"
    and "collectValues d argv i = Inr (vs, n)"
    and "callback d vs (contextFor d vs st) (world st) = Returned c w"
  shows "walk this argv i st =
           walk this argv n \<lparr> pcontext = c, world = w,
                               invoked = invoked st @ [(longName d, vs)] \<rparr>"
proof -
  have lt: "i < int (length argv)"
    using assms(1) by (simp add: at_def split: if_splits)
  have p: "processArgument d argv i st =
             (\<lparr> success = True, error = None, nextIndex = n \<rparr>,
              \<lparr> pcontext = c, world = w,
                invoked = invoked st @ [(longName d, vs)] \<rparr>)"
    using recordAndInvoke_result [of d vs n st] recordAndInvoke_state [of d vs n st] assms(4)
    by (simp add: processArgument_collected [OF assms(3)] prod_eq_iff)
  show ?thesis
    using lt assms(1,2) p by (subst walk_unfold) simp
qed

lemma walk_matched_short:
  assumes "at argv i = Some arg"
    and "resolveToken this arg = Matched d"
    and "collectValues d argv i = Inl failure"
    and "\<not> success failure"
  shows "walk this argv i st = Some (EarlyReturn (ParseResult.truncate failure), st)"
proof -
  have lt: "i < int (length argv)"
    using assms(1) by (simp add: at_def split: if_splits)
  show ?thesis
    using lt assms(1,2,4) processArgument_short [OF assms(3), of st]
    by (subst walk_unfold) simp
qed

text \<open>
  C2.  For a definition of arity \<open>-1\<close> at the flag of index \<open>i\<close>, the values collected
  are the tokens that follow the flag as long as they are present, not empty and
  without a leading dash; collection never fails; it ends at the end of the input or
  at the first token that is empty or starts with a dash; and when the callback
  returns, the loop goes on at that token, in the context and the state of the host
  that the callback left, so that a flag after the values is still processed.
\<close>

theorem unbounded_arity_collects_values:
  assumes "args d = - 1" and "0 \<le> i"
  shows "collectValues d argv i =
           Inr (valuesAfter argv i, i + 1 + int (length (valuesAfter argv i))) \<and>
         valuesAfter argv i = takeWhile isValue (drop (nat (i + 1)) argv) \<and>
         (i + 1 + int (length (valuesAfter argv i)) < int (length argv) \<longrightarrow>
            \<not> isValue (argv ! nat (i + 1 + int (length (valuesAfter argv i))))) \<and>
         (at argv i = Some arg \<and> resolveToken this arg = Matched d \<and>
          callback d (valuesAfter argv i) (contextFor d (valuesAfter argv i) st) (world st)
            = Returned c w \<longrightarrow>
            walk this argv i st =
              walk this argv (i + 1 + int (length (valuesAfter argv i)))
                \<lparr> pcontext = c, world = w,
                  invoked = invoked st @ [(longName d, valuesAfter argv i)] \<rparr>)"
  using collectValues_unlimited [OF assms, of argv] valuesAfter_stops [OF assms(2), of argv]
    walk_matched_returned [of argv i arg this d "valuesAfter argv i"
      "i + 1 + int (length (valuesAfter argv i))" st c w]
  by (simp add: valuesAfter_def)

lemma testCli_resolve_exclude:
  "resolveToken testCli ''--exclude'' = Matched (parsedArg ''exclude'' None (- 1) False None countCall)"
  by (simp add: resolveToken_def startsWith_def substring_def Map_get_def testCli_arguments)

lemma testCli_values_exclude:
  "valuesAfter [''--exclude'', ''a'', ''b'', ''--verbose''] 0 = [''a'', ''b'']"
  by (simp add: valuesAfter_def isValue_def startsWith_def)

lemma testCli_parse_exclude:
  "map_option (\<lambda>(r, st). (success r, error r, world st, invoked st,
                 map (own (parsedArguments (pcontext st))) [''exclude'', ''verbose'']))
     (parse testCli [''--exclude'', ''a'', ''b'', ''--verbose''] 0) =
   Some (True, None, 2, [(''exclude'', [''a'', ''b'']), (''verbose'', [])],
         [Some (JArray [''a'', ''b'']), Some JTrue])"
  by code_simp

theorem unbounded_arity_collects_values_witness:
  "collectValues (parsedArg ''exclude'' None (- 1) False None countCall)
      [''--exclude'', ''a'', ''b'', ''--verbose''] 0 = Inr ([''a'', ''b''], 3) \<and>
   \<not> isValue ''--verbose'' \<and>
   walk testCli [''--exclude'', ''a'', ''b'', ''--verbose''] 0
        (initialState testCli [''--exclude'', ''a'', ''b'', ''--verbose''] 0) =
     walk testCli [''--exclude'', ''a'', ''b'', ''--verbose''] 3
       \<lparr> pcontext = \<lparr> command = ''test-cli'',
                      remainingArgs = [''--exclude'', ''a'', ''b'', ''--verbose''],
                      allArgs = [''--exclude'', ''a'', ''b'', ''--verbose''],
                      parsedArguments = \<lparr> own = [''exclude'' \<mapsto> JArray [''a'', ''b'']],
                                          protoArray = None \<rparr> \<rparr>,
         world = 1, invoked = [(''exclude'', [''a'', ''b''])] \<rparr> \<and>
   map_option (\<lambda>(r, st). (success r, error r, world st, invoked st,
                 map (own (parsedArguments (pcontext st))) [''exclude'', ''verbose'']))
     (parse testCli [''--exclude'', ''a'', ''b'', ''--verbose''] 0) =
   Some (True, None, 2, [(''exclude'', [''a'', ''b'']), (''verbose'', [])],
         [Some (JArray [''a'', ''b'']), Some JTrue])"
proof -
  let ?argv = "[''--exclude'', ''a'', ''b'', ''--verbose'']"
  let ?d = "parsedArg ''exclude'' None (- 1) False None countCall"
  have ar: "args ?d = - 1" by (simp add: parsedArg_def)
  have a: "at ?argv 0 = Some ''--exclude''" by simp
  have cb: "callback ?d [''a'', ''b''] (contextFor ?d [''a'', ''b''] (initialState testCli ?argv 0))
              (world (initialState testCli ?argv 0))
            = Returned (contextFor ?d [''a'', ''b''] (initialState testCli ?argv 0)) 1"
    by (simp add: parsedArg_def countCall_def initialState_def)
  have ctx: "contextFor ?d [''a'', ''b''] (initialState testCli ?argv 0) =
             \<lparr> command = ''test-cli'', remainingArgs = ?argv, allArgs = ?argv,
               parsedArguments = \<lparr> own = [''exclude'' \<mapsto> JArray [''a'', ''b'']],
                                          protoArray = None \<rparr> \<rparr>"
    by (simp add: contextFor_def initialState_def parsedArg_def recordedValue_def testCli_def
        register_def addArgument_def argOpts_def newShellish_def testOptions_def Map_has_def
        assignProperty_def emptyObject_def)
  have zero: "(0::int) \<le> 0" by simp
  note T = unbounded_arity_collects_values
             [OF ar zero, of ?argv "''--exclude''" testCli "initialState testCli ?argv 0"
              "contextFor ?d [''a'', ''b''] (initialState testCli ?argv 0)" 1,
              unfolded testCli_values_exclude ctx]
  have c1: "collectValues ?d ?argv 0 = Inr ([''a'', ''b''], 3)"
    using T by simp
  have c2: "\<not> isValue ''--verbose''"
    using T by simp
  have c3: "walk testCli ?argv 0 (initialState testCli ?argv 0) =
              walk testCli ?argv 3
                \<lparr> pcontext = \<lparr> command = ''test-cli'', remainingArgs = ?argv, allArgs = ?argv,
                               parsedArguments = \<lparr> own = [''exclude'' \<mapsto> JArray [''a'', ''b'']],
                                          protoArray = None \<rparr> \<rparr>,
                  world = 1, invoked = [(''exclude'', [''a'', ''b''])] \<rparr>"
  proof -
    have "walk testCli ?argv 0 (initialState testCli ?argv 0) =
              walk testCli ?argv (0 + 1 + int (length [''a'', ''b'']))
                \<lparr> pcontext = \<lparr> command = ''test-cli'', remainingArgs = ?argv, allArgs = ?argv,
                               parsedArguments = \<lparr> own = [''exclude'' \<mapsto> JArray [''a'', ''b'']],
                                          protoArray = None \<rparr> \<rparr>,
                  world = 1,
                  invoked = invoked (initialState testCli ?argv 0) @ [(longName ?d, [''a'', ''b''])] \<rparr>"
      using T a cb [unfolded ctx] testCli_resolve_exclude by blast
    then show ?thesis by (simp add: initialState_def parsedArg_def)
  qed
  show ?thesis
    using c1 c2 c3 testCli_parse_exclude by (simp only: simp_thms)
qed

subsection \<open>Too few values\<close>

text \<open>
  C1, as amended.  Let a token at index \<open>i\<close> resolve to a definition of arity \<open>N \<ge> 1\<close>
  that is followed by \<open>k < N\<close> value tokens.  Then nothing is stored, no callback runs,
  and the loop returns at once a failure at index \<open>i + 1 + k\<close> whose message names the
  long name and \<open>N\<close> and then says either, when the input ends there,
  \<^verbatim>\<open>but only <k> provided\<close>, or, when a token stands there, \<^verbatim>\<open>but found flag <token>\<close>
  (\<^verbatim>\<open>but found end of arguments\<close> for an empty token), without the number \<open>k\<close>.
\<close>

theorem insufficient_values_failure:
  assumes "at argv i = Some arg"
    and "resolveToken this arg = Matched d"
    and "1 \<le> args d"
    and "int (length (valuesAfter argv i)) < args d"
  shows "processArgument d argv i st =
           (\<lparr> success = False,
              error = Some (''Argument --'' @ longName d @ '' requires '' @ toString (args d) @
                            '' value(s), but '' @
                            (if int (length argv) \<le> i + 1 + int (length (valuesAfter argv i))
                             then ''only '' @ toString (int (length (valuesAfter argv i))) @ '' provided''
                             else if argv ! nat (i + 1 + int (length (valuesAfter argv i))) = []
                             then ''found end of arguments''
                             else ''found flag '' @
                                  argv ! nat (i + 1 + int (length (valuesAfter argv i))))),
              nextIndex = i + 1 + int (length (valuesAfter argv i)) \<rparr>, st) \<and>
         walk this argv i st =
           Some (EarlyReturn
                  (ParseResult.truncate (fst (processArgument d argv i st))), st)"
proof -
  let ?k = "int (length (valuesAfter argv i))"
  have i: "0 \<le> i"
    using assms(1) by (simp add: at_def split: if_splits)
  have c: "collectValues d argv i = Inl (shortfall d argv i ?k)"
    using collectValues_fixed [of d i argv] assms(3,4) i by simp
  have f: "\<not> success (shortfall d argv i ?k)"
    by (simp add: shortfall_def)
  have m: "shortfall d argv i ?k =
           \<lparr> success = False,
              error = Some (''Argument --'' @ longName d @ '' requires '' @ toString (args d) @
                            '' value(s), but '' @
                            (if int (length argv) \<le> i + 1 + ?k
                             then ''only '' @ toString ?k @ '' provided''
                             else if argv ! nat (i + 1 + ?k) = []
                             then ''found end of arguments''
                             else ''found flag '' @ argv ! nat (i + 1 + ?k))),
              nextIndex = i + 1 + ?k \<rparr>"
    using i by (simp add: shortfall_def insufficientProvided_def insufficientFound_def at_def)
  show ?thesis
    using processArgument_short [OF c, of st] walk_matched_short [OF assms(1,2) c f, of st]
    by (simp add: m)
qed

lemma testCli_resolve_files:
  "resolveToken testCli ''--files'' = Matched (parsedArg ''files'' None 3 False None countCall)"
  by (simp add: resolveToken_def startsWith_def substring_def Map_get_def testCli_arguments)

theorem insufficient_values_failure_witness:
  "processArgument (parsedArg ''files'' None 3 False None countCall) [''--files'', ''a.txt''] 0
       (initialState testCli [''--files'', ''a.txt''] 0) =
     (\<lparr> success = False,
        error = Some ''Argument --files requires 3 value(s), but only 1 provided'',
        nextIndex = 2 \<rparr>, initialState testCli [''--files'', ''a.txt''] 0) \<and>
   walk testCli [''--files'', ''a.txt'', ''--verbose''] 0
        (initialState testCli [''--files'', ''a.txt'', ''--verbose''] 0) =
     Some (EarlyReturn
            \<lparr> success = False,
              error = Some ''Argument --files requires 3 value(s), but found flag --verbose'' \<rparr>,
           initialState testCli [''--files'', ''a.txt'', ''--verbose''] 0)"
proof -
  let ?d = "parsedArg ''files'' None 3 False None countCall"
  have ar: "1 \<le> args ?d" by (simp add: parsedArg_def)
  have v1: "valuesAfter [''--files'', ''a.txt''] 0 = [''a.txt'']"
    by (simp add: valuesAfter_def isValue_def startsWith_def)
  have v2: "valuesAfter [''--files'', ''a.txt'', ''--verbose''] 0 = [''a.txt'']"
    by (simp add: valuesAfter_def isValue_def startsWith_def)
  have k1: "int (length (valuesAfter [''--files'', ''a.txt''] 0)) < args ?d"
    by (simp add: v1 parsedArg_def)
  have k2: "int (length (valuesAfter [''--files'', ''a.txt'', ''--verbose''] 0)) < args ?d"
    by (simp add: v2 parsedArg_def)
  have a1: "at [''--files'', ''a.txt''] 0 = Some ''--files''" by simp
  have a2: "at [''--files'', ''a.txt'', ''--verbose''] 0 = Some ''--files''" by simp
  have ts: "toString 3 = ''3''" "toString 1 = ''1''"
    by (simp_all add: toString_def digits.simps)
  show ?thesis
    using insufficient_values_failure [OF a1 testCli_resolve_files ar k1,
            of "initialState testCli [''--files'', ''a.txt''] 0"]
          insufficient_values_failure [OF a2 testCli_resolve_files ar k2,
            of "initialState testCli [''--files'', ''a.txt'', ''--verbose''] 0"]
    by (simp add: v1 v2 parsedArg_def ts ParseResult.truncate_def)
qed

text \<open>C1 as stated fails where a flag-like token cuts the values short: the message is
  the same whether no value or one value was available, so it does not tell how many
  there were.\<close>

theorem insufficient_values_count_counterexample:
  "length (valuesAfter [''--files'', ''--verbose''] 0) = 0 \<and>
   length (valuesAfter [''--files'', ''a.txt'', ''--verbose''] 0) = 1 \<and>
   map_option (\<lambda>(r, st). (success r, error r)) (parse testCli [''--files'', ''--verbose''] 0) =
     Some (False, Some ''Argument --files requires 3 value(s), but found flag --verbose'') \<and>
   map_option (\<lambda>(r, st). (success r, error r))
       (parse testCli [''--files'', ''a.txt'', ''--verbose''] 0) =
     Some (False, Some ''Argument --files requires 3 value(s), but found flag --verbose'')"
  by code_simp

subsection \<open>Induction over the runs of the loop that end\<close>

lemma walk_walkStep: "walk this argv i st = walkStep this argv (walk this argv) i st"
  unfolding walkStep_def by (rule walk_unfold)

text \<open>The body of the loop as it is written and as \<open>walkStep\<close> states it.\<close>

lemma walk_body_eq:
  "(if i < int (length argv) then
        (case at argv i of
           None \<Rightarrow> f this argv (i + 1) st
         | Some arg \<Rightarrow>
             if arg = [] then f this argv (i + 1) st
             else if startsWith arg ''--'' then
               (case Map_get (arguments this) (substring arg 2) of
                  None \<Rightarrow> Some (EarlyReturn (unknownArgument arg), st)
                | Some argumentDef \<Rightarrow>
                    (case processArgument argumentDef argv i st of
                       (result, st') \<Rightarrow>
                         if \<not> success result
                         then Some (EarlyReturn (ParseResult.truncate result), st')
                         else f this argv (nextIndex result) st'))
             else if startsWith arg ''-'' \<and> length arg > 1 then
               (case Map_get (shortNameMap this) (substring arg 1) of
                  None \<Rightarrow> Some (EarlyReturn (unknownArgument arg), st)
                | Some lname \<Rightarrow>
                    if lname = [] then Some (EarlyReturn (unknownArgument arg), st)
                    else
                      (case Map_get (arguments this) lname of
                         None \<Rightarrow>
                           Some (EarlyReturn
                                  \<lparr> success = False,
                                    error = Some (''Internal error: argument definition not found for ''
                                                  @ lname) \<rparr>, st)
                       | Some argumentDef \<Rightarrow>
                           (case processArgument argumentDef argv i st of
                              (result, st') \<Rightarrow>
                                if \<not> success result
                                then Some (EarlyReturn (ParseResult.truncate result), st')
                                else f this argv (nextIndex result) st')))
             else f this argv (i + 1) st)
      else Some (LoopDone, st)) = walkStep this argv (f this argv) i st"
  by (simp add: walkStep_def resolveToken_def split: option.splits)

lemma walk_run_induct [consumes 1, case_names finished skip unknown internal failed continue]:
  assumes run: "walk this argv i st = Some y"
    and finished: "\<And>i st. \<not> i < int (length argv) \<Longrightarrow> P i st (LoopDone, st)"
    and skip: "\<And>i st y. i < int (length argv) \<Longrightarrow>
                 (case at argv i of None \<Rightarrow> True | Some arg \<Rightarrow> resolveToken this arg = NotAFlag) \<Longrightarrow>
                 P (i + 1) st y \<Longrightarrow> P i st y"
    and unknown: "\<And>i st arg. at argv i = Some arg \<Longrightarrow> resolveToken this arg = UnknownFlag \<Longrightarrow>
                 P i st (EarlyReturn (unknownArgument arg), st)"
    and internal: "\<And>i st arg l. at argv i = Some arg \<Longrightarrow>
                 resolveToken this arg = MissingDefinition l \<Longrightarrow>
                 P i st (EarlyReturn
                          \<lparr> success = False,
                            error = Some (''Internal error: argument definition not found for '' @ l) \<rparr>,
                         st)"
    and failed: "\<And>i st arg d r st'. at argv i = Some arg \<Longrightarrow> resolveToken this arg = Matched d \<Longrightarrow>
                 processArgument d argv i st = (r, st') \<Longrightarrow> \<not> success r \<Longrightarrow>
                 P i st (EarlyReturn (ParseResult.truncate r), st')"
    and continue: "\<And>i st arg d r st' y. at argv i = Some arg \<Longrightarrow>
                 resolveToken this arg = Matched d \<Longrightarrow>
                 processArgument d argv i st = (r, st') \<Longrightarrow> success r \<Longrightarrow>
                 P (nextIndex r) st' y \<Longrightarrow> P i st y"
  shows "P i st y"
proof -
  have "t = this \<longrightarrow> a = argv \<longrightarrow> P i st y" if w: "walk t a i st = Some y" for t a
    apply (rule walk.raw_induct
        [where P = "\<lambda>t a i st y. t = this \<longrightarrow> a = argv \<longrightarrow> P i st y", OF _ w])
    subgoal premises prems for f t a i st y
    proof (intro impI)
      assume eq: "t = this" "a = argv"
      have IH: "P i st y" if "f this argv i st = Some y" for i st y
        using prems(1) [OF that] by simp
      have body: "walkStep this argv (f this argv) i st = Some y"
        using prems(2) unfolding eq by (simp only: walk_body_eq)
      show "P i st y"
      proof (cases "i < int (length argv)")
        case False
        with body finished [of i st] show ?thesis by (simp add: walkStep_def)
      next
        case lt: True
        show ?thesis
        proof (cases "at argv i")
          case None
          with body lt have "f this argv (i + 1) st = Some y" by (simp add: walkStep_def)
          from skip [OF lt _ IH [OF this]] None show ?thesis by simp
        next
          case (Some arg)
          show ?thesis
          proof (cases "resolveToken this arg")
            case NotAFlag
            with body lt Some have "f this argv (i + 1) st = Some y" by (simp add: walkStep_def)
            from skip [OF lt _ IH [OF this]] Some NotAFlag show ?thesis by simp
          next
            case UnknownFlag
            with body lt Some unknown [OF Some UnknownFlag, of st] show ?thesis
              by (simp add: walkStep_def)
          next
            case (MissingDefinition l)
            with body lt Some internal [OF Some MissingDefinition, of st] show ?thesis
              by (simp add: walkStep_def)
          next
            case (Matched d)
            obtain r st' where p: "processArgument d argv i st = (r, st')"
              by (cases "processArgument d argv i st")
            show ?thesis
            proof (cases "success r")
              case False
              with body lt Some Matched p failed [OF Some Matched p] show ?thesis
                by (simp add: walkStep_def)
            next
              case True
              with body lt Some Matched p have "f this argv (nextIndex r) st' = Some y"
                by (simp add: walkStep_def)
              from continue [OF Some Matched p True IH [OF this]] show ?thesis .
            qed
          qed
        qed
      qed
    qed
    done
  from this [OF run] show ?thesis by simp
qed

subsection \<open>The pass over the required arguments\<close>

lemma assignProperty_fresh:
  "\<not> hasProperty pa l \<Longrightarrow> assignProperty pa l v = pa\<lparr> own := (own pa)(l \<mapsto> v) \<rparr>"
  by (auto simp: assignProperty_def hasProperty_def inherits_def objectPrototypeNames_def)

lemma inherits_own_update [simp]: "inherits (pa\<lparr> own := f \<rparr>) k = inherits pa k"
  by (simp add: inherits_def)

lemma withDefaults_Nil [simp]: "withDefaults [] pa = pa"
proof -
  have "(\<lambda>l. case own pa l of Some x \<Rightarrow> Some x
                | None \<Rightarrow> if inherits pa l then None
                          else (case map_of ([] :: (string \<times> 'a ParsedArgument) list) l of
                                  Some d \<Rightarrow> if required d then defaultValue d else None
                                | None \<Rightarrow> None)) = own pa"
    by (auto simp: fun_eq_iff split: option.splits)
  then show ?thesis by (simp add: withDefaults_def)
qed

lemma withDefaults_fill:
  assumes "l \<notin> fst ` set rest" and "required d" and "\<not> hasProperty pa l"
    and "defaultValue d = Some v"
  shows "withDefaults rest (assignProperty pa l v) = withDefaults ((l, d) # rest) pa"
proof -
  have m: "map_of rest l = None" using assms(1) by (simp add: map_of_eq_None_iff)
  have o: "own pa l = None" and i: "\<not> inherits pa l"
    using assms(3) by (auto simp: hasProperty_def)
  have "(\<lambda>k. case ((own pa)(l \<mapsto> v)) k of Some x \<Rightarrow> Some x
                | None \<Rightarrow> if inherits (pa\<lparr> own := (own pa)(l \<mapsto> v) \<rparr>) k then None
                          else (case map_of rest k of
                                  Some d \<Rightarrow> if required d then defaultValue d else None
                                | None \<Rightarrow> None))
        = (\<lambda>k. case own pa k of Some x \<Rightarrow> Some x
                | None \<Rightarrow> if inherits pa k then None
                          else (case map_of ((l, d) # rest) k of
                                  Some d \<Rightarrow> if required d then defaultValue d else None
                                | None \<Rightarrow> None))"
    using m o i assms(2,4) by (auto simp: fun_eq_iff split: option.splits)
  then show ?thesis
    unfolding withDefaults_def assignProperty_fresh [OF assms(3)] by simp
qed

lemma withDefaults_keep:
  assumes "l \<notin> fst ` set rest" and "\<not> (required d \<and> \<not> hasProperty pa l)"
  shows "withDefaults rest pa = withDefaults ((l, d) # rest) pa"
proof -
  have m: "map_of rest l = None" using assms(1) by (simp add: map_of_eq_None_iff)
  have "(\<lambda>k. case own pa k of Some x \<Rightarrow> Some x
                | None \<Rightarrow> if inherits pa k then None
                          else (case map_of rest k of
                                  Some d \<Rightarrow> if required d then defaultValue d else None
                                | None \<Rightarrow> None))
        = (\<lambda>k. case own pa k of Some x \<Rightarrow> Some x
                | None \<Rightarrow> if inherits pa k then None
                          else (case map_of ((l, d) # rest) k of
                                  Some d \<Rightarrow> if required d then defaultValue d else None
                                | None \<Rightarrow> None))"
    using m assms(2) by (auto simp: fun_eq_iff hasProperty_def split: option.splits)
  then show ?thesis by (simp add: withDefaults_def)
qed

lemma missingWithoutDefault_other:
  "fst e \<noteq> l \<Longrightarrow> \<not> hasProperty pa l \<Longrightarrow>
   missingWithoutDefault (assignProperty pa l v) e = missingWithoutDefault pa e"
  by (simp add: missingWithoutDefault_def assignProperty_fresh hasProperty_def)

lemma requiredPass_spec:
  assumes "distinct (map fst entries)"
  shows "requiredPass entries pa =
           (case find (missingWithoutDefault pa) entries of
              Some e \<Rightarrow>
                (Some (missingRequired (fst e)),
                 withDefaults (takeWhile (\<lambda>e. \<not> missingWithoutDefault pa e) entries) pa)
            | None \<Rightarrow> (None, withDefaults entries pa))"
  using assms
proof (induction entries arbitrary: pa)
  case Nil
  show ?case by simp
next
  case (Cons e rest)
  obtain l d where e: "e = (l, d)" by (cases e)
  from Cons.prems have fresh: "l \<notin> fst ` set rest" and dist: "distinct (map fst rest)"
    by (auto simp: e)
  note IH = Cons.IH [OF dist]
  show ?case
  proof (cases "required d \<and> \<not> hasProperty pa l")
    case False
    then have nm: "\<not> missingWithoutDefault pa (l, d)"
      by (auto simp: missingWithoutDefault_def)
    have tw: "l \<notin> fst ` set (takeWhile (\<lambda>e. \<not> missingWithoutDefault pa e) rest)"
      using fresh by (auto dest: set_takeWhileD)
    have k1: "withDefaults ((l, d) # takeWhile (\<lambda>e. \<not> missingWithoutDefault pa e) rest) pa
                = withDefaults (takeWhile (\<lambda>e. \<not> missingWithoutDefault pa e) rest) pa"
      using withDefaults_keep [of l "takeWhile (\<lambda>e. \<not> missingWithoutDefault pa e) rest" d pa]
        tw False by simp
    have k2: "withDefaults ((l, d) # rest) pa = withDefaults rest pa"
      using withDefaults_keep [of l rest d pa] fresh False by simp
    have step: "requiredPass ((l, d) # rest) pa = requiredPass rest pa"
      using False by auto
    have "takeWhile (\<lambda>e. \<not> missingWithoutDefault pa e) ((l, d) # rest)
            = (l, d) # takeWhile (\<lambda>e. \<not> missingWithoutDefault pa e) rest"
      using nm by simp
    moreover have "find (missingWithoutDefault pa) ((l, d) # rest)
                     = find (missingWithoutDefault pa) rest"
      using nm by simp
    ultimately show ?thesis
      unfolding e step IH by (simp only: k1 k2)
  next
    case True
    then have np: "\<not> hasProperty pa l" by simp
    show ?thesis
    proof (cases "defaultValue d")
      case None
      with True have "missingWithoutDefault pa (l, d)"
        by (simp add: missingWithoutDefault_def)
      with True None show ?thesis by (simp add: e)
    next
      case (Some v)
      with True have nm: "\<not> missingWithoutDefault pa (l, d)"
        by (simp add: missingWithoutDefault_def)
      have same: "missingWithoutDefault (assignProperty pa l v) x = missingWithoutDefault pa x"
        if "x \<in> set rest" for x
      proof -
        have "fst x \<noteq> l" using that fresh by force
        then show ?thesis using np by (rule missingWithoutDefault_other)
      qed
      have f: "find (missingWithoutDefault (assignProperty pa l v)) rest
                 = find (missingWithoutDefault pa) rest"
        using same by (intro find_cong) auto
      have t: "takeWhile (\<lambda>e. \<not> missingWithoutDefault (assignProperty pa l v) e) rest
                 = takeWhile (\<lambda>e. \<not> missingWithoutDefault pa e) rest"
        using same by (intro takeWhile_cong) auto
      have tw: "l \<notin> fst ` set (takeWhile (\<lambda>e. \<not> missingWithoutDefault pa e) rest)"
        using fresh by (auto dest: set_takeWhileD)
      have k1: "withDefaults (takeWhile (\<lambda>e. \<not> missingWithoutDefault pa e) rest)
                    (assignProperty pa l v)
                  = withDefaults ((l, d) # takeWhile (\<lambda>e. \<not> missingWithoutDefault pa e) rest) pa"
        using withDefaults_fill [of l "takeWhile (\<lambda>e. \<not> missingWithoutDefault pa e) rest" d pa v]
          tw True Some by simp
      have k2: "withDefaults rest (assignProperty pa l v) = withDefaults ((l, d) # rest) pa"
        using withDefaults_fill [of l rest d pa v] fresh True Some by simp
      have step: "requiredPass ((l, d) # rest) pa = requiredPass rest (assignProperty pa l v)"
        using True Some by simp
      have "requiredPass rest (assignProperty pa l v) =
              (case find (missingWithoutDefault pa) rest of
                 Some e \<Rightarrow>
                   (Some (missingRequired (fst e)),
                    withDefaults ((l, d) # takeWhile (\<lambda>e. \<not> missingWithoutDefault pa e) rest) pa)
               | None \<Rightarrow> (None, withDefaults ((l, d) # rest) pa))"
        unfolding IH f t k1 k2 ..
      moreover have "takeWhile (\<lambda>e. \<not> missingWithoutDefault pa e) ((l, d) # rest)
                       = (l, d) # takeWhile (\<lambda>e. \<not> missingWithoutDefault pa e) rest"
        using nm by simp
      moreover have "find (missingWithoutDefault pa) ((l, d) # rest)
                       = find (missingWithoutDefault pa) rest"
        using nm by simp
      ultimately show ?thesis
        unfolding e step by (simp only:)
    qed
  qed
qed

text \<open>
  When the loop over the tokens has ended without a failure, \<^verbatim>\<open>parse\<close> goes through
  the registry in insertion order.  If some definition flagged required has neither a
  default nor its long name in \<^verbatim>\<open>parsedArguments\<close> (as the operator \<^verbatim>\<open>in\<close> finds it, own
  or inherited), the result is the one failure \<^verbatim>\<open>Required argument --<name> is missing\<close>
  for the first such definition, and only the definitions before it have received
  their defaults; otherwise the result is a success and every definition flagged
  required whose long name was not in \<^verbatim>\<open>parsedArguments\<close> has received its default.
\<close>

lemma parse_required_pass:
  assumes "distinct (map fst (arguments this))"
    and "walk this argv 0 (initialState this argv w) = Some (LoopDone, st)"
  shows "parse this argv w =
           Some (case find (missingWithoutDefault (parsedArguments (pcontext st))) (arguments this) of
                   Some e \<Rightarrow>
                     (\<lparr> success = False,
                        error = Some (''Required argument --'' @ fst e @ '' is missing'') \<rparr>,
                      st\<lparr> pcontext := (pcontext st)\<lparr> parsedArguments :=
                            withDefaults
                              (takeWhile (\<lambda>e. \<not> missingWithoutDefault (parsedArguments (pcontext st)) e)
                                 (arguments this))
                              (parsedArguments (pcontext st)) \<rparr> \<rparr>)
                 | None \<Rightarrow>
                     (\<lparr> success = True, error = None \<rparr>,
                      st\<lparr> pcontext := (pcontext st)\<lparr> parsedArguments :=
                            withDefaults (arguments this) (parsedArguments (pcontext st)) \<rparr> \<rparr>))"
  unfolding parse_done [OF assms(2)] afterWalk_def requiredPass_spec [OF assms(1)]
  by (simp add: missingRequired_def split: option.splits)

lemma walk_Nil: "walk this [] 0 st = Some (LoopDone, st)"
  by (subst walk_unfold) simp

lemma requiredCli_arguments:
  "arguments requiredCli =
     [(''output'', parsedArg ''output'' (Some ''o'') 1 True (Some (JString ''./output'')) countCall),
      (''input'', parsedArg ''input'' (Some ''i'') 1 True None countCall),
      (''format'', parsedArg ''format'' None 1 True None countCall)]"
  by (simp add: requiredCli_def register_def addArgument_def argOpts_def newShellish_def
      parsedArg_def Map_has_def)

lemma defaultCli_arguments:
  "arguments defaultCli =
     [(''optional'', parsedArg ''optional'' None 1 True (Some (JString ''default-value'')) countCall),
      (''verbose'', parsedArg ''verbose'' (Some ''v'') 0 False None countCall)]"
  by (simp add: defaultCli_def register_def addArgument_def argOpts_def newShellish_def
      parsedArg_def Map_has_def)

lemma parse_required_pass_example:
  "map_option (\<lambda>(r, st). (success r, error r,
                 map (own (parsedArguments (pcontext st))) [''output'', ''input'', ''format''],
                 invoked st))
     (parse requiredCli [] 0) =
     Some (False, Some ''Required argument --input is missing'',
           [Some (JString ''./output''), None, None], []) \<and>
   map_option (\<lambda>(r, st). (success r, error r, own (parsedArguments (pcontext st)) ''optional'',
                 invoked st))
     (parse defaultCli [] 0) =
     Some (True, None, Some (JString ''default-value''), [])"
  by code_simp

lemma emptyObject_inherited:
  "hasProperty emptyObject ''constructor'' \<and> hasProperty emptyObject ''toString'' \<and>
   \<not> hasProperty emptyObject ''input''"
  by (simp add: hasProperty_def inherits_def emptyObject_def objectPrototypeNames_def)

text \<open>
  C4.  A definition flagged required, without a default, registered under the long name
  \<^verbatim>\<open>constructor\<close>: the parse of no token at all does not fail with
  \<^verbatim>\<open>Required argument --constructor is missing\<close> but succeeds, with nothing stored and no
  callback run.  A definition flagged required, with a default, registered under the
  long name \<^verbatim>\<open>toString\<close>: the parse of no token at all succeeds and the default is not
  stored.  In both, line 153 finds the long name in the empty \<^verbatim>\<open>parsedArguments\<close>,
  among the names it inherits.
\<close>

theorem inherited_name_passes_required_check:
  "map_option (\<lambda>(r, st). (success r, error r, own (parsedArguments (pcontext st)) ''constructor'',
                 invoked st))
     (parse constructorCli [] 0) =
     Some (True, None, None, []) \<and>
   map_option (\<lambda>(r, st). (success r, error r, own (parsedArguments (pcontext st)) ''toString'',
                 invoked st))
     (parse toStringCli [] 0) =
     Some (True, None, None, [])"
  by code_simp

subsection \<open>Defaults and callbacks\<close>

lemma processArgument_other:
  assumes "longName d \<noteq> l"
  shows "l \<in> fst ` set (invoked (snd (processArgument d argv i st)))
           \<longleftrightarrow> l \<in> fst ` set (invoked st)"
proof (cases "collectValues d argv i")
  case (Inl failure)
  then show ?thesis by (simp add: processArgument_short)
next
  case (Inr p)
  obtain vs n where p: "p = (vs, n)" by (cases p)
  show ?thesis
    using assms
    by (auto simp: processArgument_collected [OF Inr [unfolded p]] recordAndInvoke_invoked)
qed

lemma resolveToken_Matched_in:
  "resolveToken this arg = Matched d \<Longrightarrow> \<exists>k. (k, d) \<in> set (arguments this)"
  by (auto simp: resolveToken_def Map_get_def split: if_splits option.splits dest: map_of_SomeD)

lemma namedInI:
  "at argv i = Some arg \<Longrightarrow> resolveToken this arg = Matched d \<Longrightarrow> namedIn this argv (longName d)"
  by (auto simp: namedIn_def list_ex_iff at_def split: if_splits intro!: bexI [of _ arg])

lemma walk_only_named:
  assumes "walk this argv i st = Some y" and "\<not> namedIn this argv l"
  shows "l \<in> fst ` set (invoked (snd y)) \<longleftrightarrow> l \<in> fst ` set (invoked st)"
  using assms(1)
proof (induction rule: walk_run_induct)
  case (failed i st arg d r st')
  from namedInI [OF failed(1,2)] assms(2) have "longName d \<noteq> l" by auto
  from processArgument_other [OF this, of argv i st] failed(3) show ?case by simp
next
  case (continue i st arg d r st' y)
  from namedInI [OF continue(1,2)] assms(2) have "longName d \<noteq> l" by auto
  from processArgument_other [OF this, of argv i st] continue(3,5) show ?case by simp
qed simp_all

text \<open>
  A long name stays out of \<^verbatim>\<open>parsedArguments\<close> during the loop when no token names it,
  no callback of the registry puts it there, and no definition is registered under
  \<^verbatim>\<open>__proto__\<close>.
\<close>

lemma assignProperty_keeps_absent:
  assumes "\<not> hasProperty pa l" and "k \<noteq> l" and "k \<noteq> ''__proto__''"
  shows "\<not> hasProperty (assignProperty pa k v) l"
  using assms by (simp add: assignProperty_def hasProperty_def inherits_def)

lemma processArgument_keeps_absent:
  assumes "longName d \<noteq> l" and "longName d \<noteq> ''__proto__''"
    and "\<forall>vs c w. \<not> hasProperty (parsedArguments c) l \<longrightarrow>
           (case callback d vs c w of
              Returned c' w' \<Rightarrow> \<not> hasProperty (parsedArguments c') l
            | Threw f c' w' \<Rightarrow> \<not> hasProperty (parsedArguments c') l)"
    and "\<not> hasProperty (parsedArguments (pcontext st)) l"
  shows "\<not> hasProperty (parsedArguments (pcontext (snd (processArgument d argv i st)))) l"
proof (cases "collectValues d argv i")
  case (Inl failure)
  with assms(4) show ?thesis by (simp add: processArgument_short)
next
  case (Inr p)
  obtain vs n where p: "p = (vs, n)" by (cases p)
  have "\<not> hasProperty (parsedArguments (contextFor d vs st)) l"
    using assignProperty_keeps_absent [OF assms(4,1,2)] by (simp add: contextFor_def)
  with assms(3) have
    "case callback d vs (contextFor d vs st) (world st) of
       Returned c' w' \<Rightarrow> \<not> hasProperty (parsedArguments c') l
     | Threw f c' w' \<Rightarrow> \<not> hasProperty (parsedArguments c') l"
    by blast
  then show ?thesis
    unfolding processArgument_collected [OF Inr [unfolded p]] recordAndInvoke_state
    by (cases "callback d vs (contextFor d vs st) (world st)") simp_all
qed

lemma walk_keeps_absent:
  assumes "walk this argv i st = Some y" and "\<not> namedIn this argv l"
    and "\<forall>(k, d) \<in> set (arguments this). longName d \<noteq> ''__proto__'' \<and>
           (\<forall>vs c w. \<not> hasProperty (parsedArguments c) l \<longrightarrow>
              (case callback d vs c w of
                 Returned c' w' \<Rightarrow> \<not> hasProperty (parsedArguments c') l
               | Threw f c' w' \<Rightarrow> \<not> hasProperty (parsedArguments c') l))"
    and "\<not> hasProperty (parsedArguments (pcontext st)) l"
  shows "\<not> hasProperty (parsedArguments (pcontext (snd y))) l"
  using assms(1,4)
proof (induction rule: walk_run_induct)
  case (failed i st arg d r st')
  from namedInI [OF failed(1,2)] assms(2) have n: "longName d \<noteq> l" by auto
  from resolveToken_Matched_in [OF failed(2)] assms(3) have
    "longName d \<noteq> ''__proto__''"
    "\<forall>vs c w. \<not> hasProperty (parsedArguments c) l \<longrightarrow>
       (case callback d vs c w of
          Returned c' w' \<Rightarrow> \<not> hasProperty (parsedArguments c') l
        | Threw f c' w' \<Rightarrow> \<not> hasProperty (parsedArguments c') l)"
    by auto
  from processArgument_keeps_absent [OF n this failed(5), of argv i] failed(3)
  show ?case by simp
next
  case (continue i st arg d r st' y)
  from namedInI [OF continue(1,2)] assms(2) have n: "longName d \<noteq> l" by auto
  from resolveToken_Matched_in [OF continue(2)] assms(3) have
    "longName d \<noteq> ''__proto__''"
    "\<forall>vs c w. \<not> hasProperty (parsedArguments c) l \<longrightarrow>
       (case callback d vs c w of
          Returned c' w' \<Rightarrow> \<not> hasProperty (parsedArguments c') l
        | Threw f c' w' \<Rightarrow> \<not> hasProperty (parsedArguments c') l)"
    by auto
  from processArgument_keeps_absent [OF n this continue(6), of argv i] continue(3)
  have "\<not> hasProperty (parsedArguments (pcontext st')) l" by simp
  then show ?case by (rule continue(5))
qed simp_all

text \<open>
  C5, as amended.  Take a definition flagged required, with a default, that no token of
  the input names.  When the loop over the tokens ends without a failure, in a state
  where \<^verbatim>\<open>parsedArguments\<close> has no property of the long name of the definition (no
  callback has stored one, and it inherits none) and has one for every definition
  flagged required without a default, \<^verbatim>\<open>parse\<close> succeeds; the default is stored under
  the long name of the definition; and the callback of the definition has not been
  invoked: the state of the host and the log of invocations are those at the end of the
  loop, and the log has no entry for the long name.
\<close>

theorem default_stored_without_callback:
  assumes "distinct (map fst (arguments this))"
    and "Map_get (arguments this) l = Some d" and "required d" and "defaultValue d = Some v"
    and "\<not> namedIn this argv l"
    and "walk this argv 0 (initialState this argv w) = Some (LoopDone, st)"
    and "\<not> hasProperty (parsedArguments (pcontext st)) l"
    and "\<forall>e \<in> set (arguments this). \<not> missingWithoutDefault (parsedArguments (pcontext st)) e"
  shows "parse this argv w =
           Some (\<lparr> success = True, error = None \<rparr>,
                 st\<lparr> pcontext := (pcontext st)\<lparr> parsedArguments :=
                       withDefaults (arguments this) (parsedArguments (pcontext st)) \<rparr> \<rparr>) \<and>
         own (withDefaults (arguments this) (parsedArguments (pcontext st))) l = Some v \<and>
         l \<notin> fst ` set (invoked st)"
proof -
  have f: "find (missingWithoutDefault (parsedArguments (pcontext st))) (arguments this) = None"
    using assms(8) by (simp add: find_None_iff)
  have p: "parse this argv w =
           Some (\<lparr> success = True, error = None \<rparr>,
                 st\<lparr> pcontext := (pcontext st)\<lparr> parsedArguments :=
                       withDefaults (arguments this) (parsedArguments (pcontext st)) \<rparr> \<rparr>)"
    unfolding parse_done [OF assms(6)] afterWalk_def requiredPass_spec [OF assms(1)] f
    by simp
  from walk_only_named [OF assms(6,5)]
  have i: "l \<notin> fst ` set (invoked st)"
    by (simp add: initialState_def)
  have "own (withDefaults (arguments this) (parsedArguments (pcontext st))) l = Some v"
    using assms(7) assms(2-4) by (simp add: withDefaults_def Map_get_def hasProperty_def)
  with p i show ?thesis by simp
qed

lemma walk_past_end: "int (length argv) \<le> i \<Longrightarrow> walk this argv i st = Some (LoopDone, st)"
  by (subst walk_unfold) simp

lemma defaultCli_resolve_verbose:
  "resolveToken defaultCli ''--verbose'' = Matched (parsedArg ''verbose'' (Some ''v'') 0 False None countCall)"
  by (simp add: resolveToken_def startsWith_def substring_def Map_get_def defaultCli_arguments)

lemma defaultCli_walk_verbose:
  "walk defaultCli [''--verbose''] 0 (initialState defaultCli [''--verbose''] 0) =
     Some (LoopDone, afterVerbose [''--verbose''])"
proof -
  let ?d = "parsedArg ''verbose'' (Some ''v'') 0 False None countCall"
  let ?st = "initialState defaultCli [''--verbose''] 0"
  have a: "at [''--verbose''] 0 = Some ''--verbose''" by simp
  have c: "collectValues ?d [''--verbose''] 0 = Inr ([], 1)"
    by (simp add: collectValues_def parsedArg_def collectFixed.simps)
  have cb: "callback ?d [] (contextFor ?d [] ?st) (world ?st)
              = Returned (contextFor ?d [] ?st) 1"
    by (simp add: parsedArg_def countCall_def initialState_def)
  have st: "\<lparr> pcontext = contextFor ?d [] ?st, world = 1,
              invoked = invoked ?st @ [(longName ?d, [])] \<rparr> = afterVerbose [''--verbose'']"
    by (simp add: contextFor_def initialState_def parsedArg_def recordedValue_def afterVerbose_def
        defaultCli_def register_def addArgument_def argOpts_def newShellish_def testOptions_def
        Map_has_def assignProperty_def emptyObject_def)
  show ?thesis
    unfolding walk_matched_returned [OF a defaultCli_resolve_verbose c cb] st
    by (rule walk_past_end) simp
qed

theorem default_stored_without_callback_witness:
  "\<not> namedIn defaultCli [''--verbose''] ''optional'' \<and>
   map_option (\<lambda>(r, st). (success r, error r, world st, invoked st,
                 map (own (parsedArguments (pcontext st))) [''optional'', ''verbose'']))
     (parse defaultCli [''--verbose''] 0) =
     Some (True, None, 1, [(''verbose'', [])], [Some (JString ''default-value''), Some JTrue])"
proof -
  let ?d = "parsedArg ''optional'' None 1 True (Some (JString ''default-value'')) countCall"
  have dist: "distinct (map fst (arguments defaultCli))"
    by (simp add: defaultCli_arguments)
  have g: "Map_get (arguments defaultCli) ''optional'' = Some ?d"
    by (simp add: Map_get_def defaultCli_arguments)
  have r: "required ?d" and dv: "defaultValue ?d = Some (JString ''default-value'')"
    by (simp_all add: parsedArg_def)
  have nn: "\<not> namedIn defaultCli [''--verbose''] ''optional''"
    by (simp add: namedIn_def defaultCli_resolve_verbose parsedArg_def)
  have hp: "\<not> hasProperty (parsedArguments (pcontext (afterVerbose [''--verbose'']))) ''optional''"
    by (simp add: afterVerbose_def hasProperty_def inherits_def objectPrototypeNames_def)
  have m: "\<forall>e \<in> set (arguments defaultCli).
             \<not> missingWithoutDefault (parsedArguments (pcontext (afterVerbose [''--verbose'']))) e"
    by (simp add: defaultCli_arguments missingWithoutDefault_def parsedArg_def)
  from default_stored_without_callback [OF dist g r dv nn defaultCli_walk_verbose hp m]
  have "parse defaultCli [''--verbose''] 0 =
           Some (\<lparr> success = True, error = None \<rparr>,
                 (afterVerbose [''--verbose''])\<lparr> pcontext := (pcontext (afterVerbose [''--verbose'']))
                    \<lparr> parsedArguments :=
                       withDefaults (arguments defaultCli)
                         (parsedArguments (pcontext (afterVerbose [''--verbose'']))) \<rparr> \<rparr>)"
    by simp
  then have "map_option (\<lambda>(r, st). (success r, error r, world st, invoked st,
                 map (own (parsedArguments (pcontext st))) [''optional'', ''verbose'']))
     (parse defaultCli [''--verbose''] 0) =
     Some (True, None, 1, [(''verbose'', [])], [Some (JString ''default-value''), Some JTrue])"
    by (simp add: afterVerbose_def withDefaults_def defaultCli_arguments parsedArg_def
        inherits_def objectPrototypeNames_def)
  with nn show ?thesis by simp
qed

text \<open>C5 as stated fails when something else ends the parse, and when a callback stores
  a value under the long name: \<open>output\<close> of \<open>requiredCli\<close> and \<open>optional\<close> of \<open>defaultCli\<close>
  and of \<open>writeCli\<close> are required, have a default and are named by no token.  In the
  first case \<^verbatim>\<open>parse\<close> fails for another required argument, in the second for an
  unknown argument, before the default is stored; in the third \<^verbatim>\<open>parse\<close> succeeds and
  what is recorded is the value that the callback of \<^verbatim>\<open>--verbose\<close> wrote, not the
  default.\<close>

theorem default_parse_fails_counterexample:
  "map_option (\<lambda>d. (required d, defaultValue d)) (Map_get (arguments requiredCli) ''output'')
     = Some (True, Some (JString ''./output'')) \<and>
   \<not> namedIn requiredCli [] ''output'' \<and>
   map_option (\<lambda>(r, st). (success r, error r)) (parse requiredCli [] 0)
     = Some (False, Some ''Required argument --input is missing'') \<and>
   map_option (\<lambda>d. (required d, defaultValue d)) (Map_get (arguments defaultCli) ''optional'')
     = Some (True, Some (JString ''default-value'')) \<and>
   \<not> namedIn defaultCli [''--unknown''] ''optional'' \<and>
   map_option (\<lambda>(r, st). (success r, error r, own (parsedArguments (pcontext st)) ''optional''))
       (parse defaultCli [''--unknown''] 0)
     = Some (False, Some ''Unknown argument: --unknown'', None) \<and>
   map_option (\<lambda>d. (required d, defaultValue d)) (Map_get (arguments writeCli) ''optional'')
     = Some (True, Some (JString ''default-value'')) \<and>
   \<not> namedIn writeCli [''--verbose''] ''optional'' \<and>
   map_option (\<lambda>(r, st). (success r, error r, invoked st,
                 own (parsedArguments (pcontext st)) ''optional''))
       (parse writeCli [''--verbose''] 0)
     = Some (True, None, [(''verbose'', [])], Some (JString ''written''))"
  by code_simp

subsection \<open>Termination\<close>

lemma collectUnlimited_count:
  "snd (collectUnlimited argv n j acc) =
     j + int (length (fst (collectUnlimited argv n j acc))) - int (length acc)"
proof (induction argv n j acc rule: collectUnlimited.induct)
  case (1 argv n j acc)
  show ?case
  proof (cases "n + j < int (length argv) \<and>
                (\<exists>a. at argv (n + j) = Some a \<and> \<not> (a = [] \<or> startsWith a ''-''))")
    case False
    then show ?thesis
      by (subst (1 2) collectUnlimited.simps) (auto split: option.splits)
  next
    case True
    then obtain a where a: "n + j < int (length argv)" "at argv (n + j) = Some a"
      "\<not> (a = [] \<or> startsWith a ''-'')" by blast
    have s: "collectUnlimited argv n j acc = collectUnlimited argv n (j + 1) (acc @ [a])"
      using a by (subst collectUnlimited.simps) simp
    show ?thesis
      unfolding s using "1.IH" [OF a] by simp
  qed
qed

lemma collectFixed_Inl_fails:
  "collectFixed d argv n j acc = Inl failure \<Longrightarrow> \<not> success failure"
proof (induction d argv n j acc rule: collectFixed.induct)
  case (1 d argv n j acc)
  from "1.prems" show ?case
    by (subst (asm) collectFixed.simps)
       (auto split: if_splits option.splits dest: "1.IH" [rotated -1])
qed

lemma collectValues_Inl_fails:
  "collectValues d argv i = Inl failure \<Longrightarrow> \<not> success failure"
  by (auto simp: collectValues_def Let_def split: if_splits prod.splits sum.splits
      dest: collectFixed_Inl_fails)

lemma collectValues_nextIndex:
  assumes "collectValues d argv i = Inr (vs, n)"
  shows "n = i + 1 + (if args d = - 1 then int (length vs) else args d)"
proof (cases "args d = - 1")
  case True
  with assms have "collectUnlimited argv (i + 1) 0 [] = (vs, n - (i + 1))"
    by (auto simp: collectValues_def Let_def split: prod.splits)
  with collectUnlimited_count [of argv "i + 1" 0 "[]"] True show ?thesis by simp
next
  case False
  with assms show ?thesis
    by (auto simp: collectValues_def Let_def split: sum.splits)
qed

lemma processArgument_success:
  assumes "success (fst (processArgument d argv i st))"
  shows "\<exists>vs n. collectValues d argv i = Inr (vs, n) \<and> nextIndex (fst (processArgument d argv i st)) = n"
proof (cases "collectValues d argv i")
  case (Inl failure)
  with assms collectValues_Inl_fails [OF Inl] show ?thesis
    by (simp add: processArgument_short)
next
  case (Inr p)
  obtain vs n where p: "p = (vs, n)" by (cases p)
  show ?thesis
    using Inr unfolding p
    by (simp add: processArgument_collected recordAndInvoke_result split: cb_result.splits)
qed

lemma processArgument_advances:
  assumes "- 1 \<le> args d" and "success (fst (processArgument d argv i st))"
  shows "i + 1 \<le> nextIndex (fst (processArgument d argv i st))"
proof -
  from processArgument_success [OF assms(2)] obtain vs n where
    c: "collectValues d argv i = Inr (vs, n)" and n: "nextIndex (fst (processArgument d argv i st)) = n"
    by blast
  from collectValues_nextIndex [OF c] assms(1) have "i + 1 \<le> n"
    by (auto split: if_splits)
  with n show ?thesis by simp
qed

lemma walk_terminates:
  assumes "\<forall>(k, d) \<in> set (arguments this). - 1 \<le> args d"
  shows "\<exists>y. walk this argv i st = Some y"
proof (induction "nat (int (length argv) - i)" arbitrary: i st rule: less_induct)
  case less
  show ?case
  proof (cases "i < int (length argv)")
    case False
    then show ?thesis by (simp add: walk_past_end)
  next
    case lt: True
    have next_ok: "\<exists>y. walk this argv j st' = Some y" if "i + 1 \<le> j" for j st'
      using less [of j st'] that lt by simp
    show ?thesis
    proof (cases "at argv i")
      case None
      with lt next_ok [of "i + 1" st] show ?thesis
        by (subst walk_unfold) simp
    next
      case (Some arg)
      show ?thesis
      proof (cases "resolveToken this arg")
        case NotAFlag
        with lt Some next_ok [of "i + 1" st] show ?thesis
          by (subst walk_unfold) simp
      next
        case UnknownFlag
        with lt Some show ?thesis by (subst walk_unfold) simp
      next
        case (MissingDefinition l)
        with lt Some show ?thesis by (subst walk_unfold) simp
      next
        case (Matched d)
        from resolveToken_Matched_in [OF Matched] assms have ar: "- 1 \<le> args d" by auto
        obtain r st' where p: "processArgument d argv i st = (r, st')"
          by (cases "processArgument d argv i st")
        show ?thesis
        proof (cases "success r")
          case False
          with lt Some Matched p show ?thesis by (subst walk_unfold) simp
        next
          case True
          with processArgument_advances [OF ar, of argv i st] p have "i + 1 \<le> nextIndex r"
            by simp
          from next_ok [OF this, of st'] lt Some Matched p True show ?thesis
            by (subst walk_unfold) simp
        qed
      qed
    qed
  qed
qed

text \<open>
  C10, as amended.  For a registry in which every arity is \<open>-1\<close> or more, \<^verbatim>\<open>parse\<close>
  returns for every input and every state of the host, and a successful
  \<^verbatim>\<open>processArgument\<close> returns a next index beyond the flag.  For every definition the
  next index after a successful collection is the index of the flag plus one plus the
  arity, or plus the number of values collected when the arity is \<open>-1\<close>.
\<close>

theorem parse_terminates:
  assumes "\<forall>(k, d) \<in> set (arguments this). - 1 \<le> args d"
  shows "(\<exists>r. parse this argv w = Some r) \<and>
         (\<forall>k d i st. (k, d) \<in> set (arguments this) \<and>
                      success (fst (processArgument d argv i st)) \<longrightarrow>
                      i + 1 \<le> nextIndex (fst (processArgument d argv i st))) \<and>
         (\<forall>d i vs n. collectValues d argv i = Inr (vs, n) \<longrightarrow>
                      n = i + 1 + (if args d = - 1 then int (length vs) else args d))"
proof -
  from walk_terminates [OF assms, of argv 0 "initialState this argv w"]
  obtain y where "walk this argv 0 (initialState this argv w) = Some y" by blast
  then have "\<exists>r. parse this argv w = Some r"
    by (cases y) (auto simp: parse_def split: loop_exit.splits)
  moreover have "i + 1 \<le> nextIndex (fst (processArgument d argv i st))"
    if "(k, d) \<in> set (arguments this)" "success (fst (processArgument d argv i st))"
    for k d i st
    using processArgument_advances [of d argv i st] that assms by auto
  ultimately show ?thesis
    using collectValues_nextIndex by blast
qed

theorem parse_terminates_witness:
  "(\<exists>r. parse testCli [''--files'', ''a.txt'', ''b.txt'', ''c.txt''] 0 = Some r) \<and>
   success (fst (processArgument (parsedArg ''files'' None 3 False None countCall)
                   [''--files'', ''a.txt'', ''b.txt'', ''c.txt''] 0
                   (initialState testCli [''--files'', ''a.txt'', ''b.txt'', ''c.txt''] 0))) \<and>
   0 + 1 \<le> nextIndex (fst (processArgument (parsedArg ''files'' None 3 False None countCall)
                   [''--files'', ''a.txt'', ''b.txt'', ''c.txt''] 0
                   (initialState testCli [''--files'', ''a.txt'', ''b.txt'', ''c.txt''] 0))) \<and>
   collectValues (parsedArg ''files'' None 3 False None countCall)
      [''--files'', ''a.txt'', ''b.txt'', ''c.txt''] 0
     = Inr ([''a.txt'', ''b.txt'', ''c.txt''], 0 + 1 + 3)"
proof -
  let ?argv = "[''--files'', ''a.txt'', ''b.txt'', ''c.txt'']"
  let ?d = "parsedArg ''files'' None 3 False None countCall"
  have h: "\<forall>(k, d) \<in> set (arguments testCli). - 1 \<le> args d"
    by (simp add: testCli_arguments parsedArg_def)
  have m: "(''files'', ?d) \<in> set (arguments testCli)"
    by (simp add: testCli_arguments)
  have s: "success (fst (processArgument ?d ?argv 0 (initialState testCli ?argv 0)))"
    unfolding processArgument_collected [OF testCli_collect_files]
    by (simp add: recordAndInvoke_result parsedArg_def countCall_def)
  note T = parse_terminates [OF h, of ?argv 0]
  from T have t1: "\<exists>r. parse testCli ?argv 0 = Some r" by blast
  from T m s have t2: "0 + 1 \<le> nextIndex (fst (processArgument ?d ?argv 0 (initialState testCli ?argv 0)))"
    by blast
  from t1 s t2 testCli_collect_files show ?thesis by simp
qed

lemma negativeCli_arguments:
  "arguments negativeCli = [(''x'', parsedArg ''x'' None (- 2) False None countCall)]"
  by (simp add: negativeCli_def register_def addArgument_def argOpts_def newShellish_def
      parsedArg_def Map_has_def)

lemma negativeCli_resolve:
  "resolveToken negativeCli ''--x'' = Matched (parsedArg ''x'' None (- 2) False None countCall)"
  by (simp add: resolveToken_def startsWith_def substring_def Map_get_def negativeCli_arguments)

lemma negativeCli_steps_back:
  "fst (processArgument (parsedArg ''x'' None (- 2) False None countCall) [''--x''] 0 st)
     = \<lparr> success = True, error = None, nextIndex = - 1 \<rparr>"
proof -
  have c: "collectValues (parsedArg ''x'' None (- 2) False None countCall) [''--x''] 0 = Inr ([], - 1)"
    by (simp add: collectValues_def parsedArg_def collectFixed.simps)
  show ?thesis
    unfolding processArgument_collected [OF c]
    by (simp add: recordAndInvoke_result parsedArg_def countCall_def)
qed

lemma negativeCli_never_returns:
  assumes "walk negativeCli [''--x''] i st = Some y"
  shows "i \<noteq> 0 \<and> i \<noteq> - 1"
  using assms
proof (induction rule: walk_run_induct)
  case (finished i st)
  then show ?case by simp
next
  case (skip i st y)
  then show ?case
    by (cases "i = 0") (auto simp: negativeCli_resolve)
next
  case (unknown i st arg)
  then show ?case
    by (auto simp: at_def negativeCli_resolve split: if_splits)
next
  case (internal i st arg l)
  then show ?case
    by (auto simp: at_def negativeCli_resolve split: if_splits)
next
  case (failed i st arg d r st')
  then have "i = 0" "d = parsedArg ''x'' None (- 2) False None countCall"
    by (auto simp: at_def negativeCli_resolve split: if_splits)
  with failed(3,4) negativeCli_steps_back [of st] show ?case by simp
next
  case (continue i st arg d r st' y)
  then have "i = 0" "d = parsedArg ''x'' None (- 2) False None countCall"
    by (auto simp: at_def negativeCli_resolve split: if_splits)
  with continue(3,5) negativeCli_steps_back [of st] show ?case by simp
qed

text \<open>C10 as stated fails for a definition of arity \<open>-2\<close>: \<^verbatim>\<open>processArgument\<close> succeeds
  and returns the index before the flag, the loop comes back to the flag for ever, and
  \<^verbatim>\<open>parse\<close> does not return.\<close>

theorem negative_arity_counterexample:
  "parse negativeCli [''--x''] 0 = None \<and>
   success (fst (processArgument (parsedArg ''x'' None (- 2) False None countCall) [''--x''] 0
                   (initialState negativeCli [''--x''] 0))) \<and>
   nextIndex (fst (processArgument (parsedArg ''x'' None (- 2) False None countCall) [''--x''] 0
                     (initialState negativeCli [''--x''] 0))) = - 1"
proof -
  have "walk negativeCli [''--x''] 0 (initialState negativeCli [''--x''] 0) = None"
    using negativeCli_never_returns [of 0 "initialState negativeCli [''--x''] 0"]
    by (cases "walk negativeCli [''--x''] 0 (initialState negativeCli [''--x''] 0)") auto
  then have "parse negativeCli [''--x''] 0 = None"
    by (simp add: parse_def)
  then show ?thesis
    by (simp add: negativeCli_steps_back)
qed

subsection \<open>Short names\<close>

lemma at_Cons_pos: "1 \<le> i \<Longrightarrow> at (x # xs) i = at xs (i - 1)"
  by (auto simp: at_def nat_diff_distrib' intro!: nth_Cons_pos)

lemma at_Cons_other: "i \<noteq> 0 \<Longrightarrow> at (b # rest) i = at (a # rest) i"
  by (cases "1 \<le> i") (simp_all add: at_Cons_pos, simp add: at_def)

lemma valuesAfter_Cons: "0 \<le> i \<Longrightarrow> valuesAfter (a # rest) i = takeWhile isValue (drop (nat i) rest)"
  by (simp add: valuesAfter_def nat_add_distrib)

lemma collectValues_tail:
  assumes "0 \<le> i"
  shows "collectValues d (a # rest) i = collectValues d (b # rest) i"
proof -
  consider "args d = - 1" | "0 \<le> args d" | "args d < - 1" by linarith
  then show ?thesis
  proof cases
    case 1
    then show ?thesis
      by (simp add: collectValues_unlimited [OF 1 assms] valuesAfter_Cons [OF assms])
  next
    case 2
    have v: "valuesAfter (a # rest) i = valuesAfter (b # rest) i"
      by (simp add: valuesAfter_Cons [OF assms])
    have d: "drop (nat (i + 1)) (a # rest) = drop (nat (i + 1)) (b # rest)"
      using assms by (simp add: nat_add_distrib)
    have s: "shortfall d (a # rest) i k = shortfall d (b # rest) i k" if "0 \<le> k" for k
      using assms that by (simp add: shortfall_def at_Cons_pos)
    show ?thesis
      unfolding collectValues_fixed [OF 2 assms] v d using s by simp
  next
    case 3
    then show ?thesis
      by (simp add: collectValues_def collectFixed_done)
  qed
qed

lemma processArgument_same:
  assumes "0 \<le> i" and "sameOutcome st1 st2" and "ignoresInput (callback d)"
  shows "fst (processArgument d (a # rest) i st1) = fst (processArgument d (b # rest) i st2) \<and>
         sameOutcome (snd (processArgument d (a # rest) i st1))
                     (snd (processArgument d (b # rest) i st2))"
proof (cases "collectValues d (a # rest) i")
  case (Inl failure)
  then have "collectValues d (b # rest) i = Inl failure"
    by (simp add: collectValues_tail [OF assms(1), of d b rest a])
  with Inl assms(2) show ?thesis by (simp add: processArgument_short)
next
  case (Inr p)
  obtain vs n where p: "p = (vs, n)" by (cases p)
  from Inr have c1: "collectValues d (a # rest) i = Inr (vs, n)" by (simp add: p)
  then have c2: "collectValues d (b # rest) i = Inr (vs, n)"
    by (simp add: collectValues_tail [OF assms(1), of d b rest a])
  have sc: "sameContext (contextFor d vs st1) (contextFor d vs st2)"
    and w: "world st1 = world st2"
    using assms(2) by (simp_all add: sameOutcome_def sameContext_def contextFor_def)
  have cb: "sameEffect (callback d vs (contextFor d vs st1) (world st1))
                       (callback d vs (contextFor d vs st2) (world st2))"
    using assms(3) sc unfolding ignoresInput_def w by blast
  show ?thesis
    unfolding processArgument_collected [OF c1] processArgument_collected [OF c2]
    using assms(2) cb
    by (cases "callback d vs (contextFor d vs st1) (world st1)";
        cases "callback d vs (contextFor d vs st2) (world st2)")
       (simp_all add: recordAndInvoke_result recordAndInvoke_state sameOutcome_def
          sameContext_def)
qed

lemma walk_lockstep:
  assumes "walk this (a # rest) i st1 = Some y"
    and "resolveToken this a = Matched d0" and "resolveToken this b = Matched d0"
    and "\<forall>(k, d) \<in> set (arguments this). ignoresInput (callback d)"
    and "sameOutcome st1 st2"
  shows "\<exists>st2'. walk this (b # rest) i st2 = Some (fst y, st2') \<and> sameOutcome (snd y) st2'"
  using assms(1,5)
proof (induction arbitrary: st2 rule: walk_run_induct)
  case (finished i st)
  then show ?case by (simp add: walk_past_end)
next
  case (skip i st y)
  have "i \<noteq> 0" using skip(2) assms(2) by auto
  have tok: "at (b # rest) i = at (a # rest) i"
    using \<open>i \<noteq> 0\<close> by (rule at_Cons_other)
  have "walk this (b # rest) i st2 = walk this (b # rest) (i + 1) st2"
    using skip(1,2) tok by (subst walk_unfold) (auto split: option.splits)
  with skip(3) [OF skip(4)] show ?case by simp
next
  case (unknown i st arg)
  have "i \<noteq> 0" using unknown(1,2) assms(2) by auto
  have tok: "at (b # rest) i = Some arg"
    using at_Cons_other [OF \<open>i \<noteq> 0\<close>, of b rest a] unknown(1) by simp
  have "i < int (length (b # rest))" using tok by (simp add: at_def split: if_splits)
  then show ?case
    using tok unknown(2,3) by (subst walk_unfold) simp
next
  case (internal i st arg l)
  have "i \<noteq> 0" using internal(1,2) assms(2) by auto
  have tok: "at (b # rest) i = Some arg"
    using at_Cons_other [OF \<open>i \<noteq> 0\<close>, of b rest a] internal(1) by simp
  have "i < int (length (b # rest))" using tok by (simp add: at_def split: if_splits)
  then show ?case
    using tok internal(2,3) by (subst walk_unfold) simp
next
  case (failed i st arg d r st')
  have i: "0 \<le> i" using failed(1) by (simp add: at_def split: if_splits)
  obtain arg' where tok: "at (b # rest) i = Some arg'" "resolveToken this arg' = Matched d"
  proof (cases "i = 0")
    case True
    with failed(1,2) assms(2,3) that [of b] show ?thesis by simp
  next
    case False
    with failed(1,2) that [of arg] at_Cons_other [of i b rest a] show ?thesis by simp
  qed
  have lt: "i < int (length (b # rest))" using tok(1) by (simp add: at_def split: if_splits)
  from resolveToken_Matched_in [OF failed(2)] assms(4) have ig: "ignoresInput (callback d)"
    by auto
  from processArgument_same [OF i failed(5) ig, of a rest b] failed(3,4)
  obtain st2' where p2: "processArgument d (b # rest) i st2 = (r, st2')" "sameOutcome st' st2'"
    by (cases "processArgument d (b # rest) i st2") auto
  show ?case
    using lt tok p2 failed(4) by (subst walk_unfold) simp
next
  case (continue i st arg d r st' y)
  have i: "0 \<le> i" using continue(1) by (simp add: at_def split: if_splits)
  obtain arg' where tok: "at (b # rest) i = Some arg'" "resolveToken this arg' = Matched d"
  proof (cases "i = 0")
    case True
    with continue(1,2) assms(2,3) that [of b] show ?thesis by simp
  next
    case False
    with continue(1,2) that [of arg] at_Cons_other [of i b rest a] show ?thesis by simp
  qed
  have lt: "i < int (length (b # rest))" using tok(1) by (simp add: at_def split: if_splits)
  from resolveToken_Matched_in [OF continue(2)] assms(4) have ig: "ignoresInput (callback d)"
    by auto
  from processArgument_same [OF i continue(6) ig, of a rest b] continue(3,4)
  obtain st2' where p2: "processArgument d (b # rest) i st2 = (r, st2')" "sameOutcome st' st2'"
    by (cases "processArgument d (b # rest) i st2") auto
  have "walk this (b # rest) i st2 = walk this (b # rest) (nextIndex r) st2'"
    using lt tok p2 continue(4) by (subst walk_unfold) simp
  with continue(5) [OF p2(2)] show ?case by simp
qed

lemma resolveToken_long:
  "Map_get (arguments this) l = Some d \<Longrightarrow> resolveToken this (''--'' @ l) = Matched d"
  by (simp add: resolveToken_def startsWith_def substring_def)

lemma resolveToken_short:
  assumes "Map_get (shortNameMap this) s = Some l" and "Map_get (arguments this) l = Some d"
    and "l \<noteq> []" and "s \<noteq> []" and "\<not> startsWith s ''-''"
  shows "resolveToken this (''-'' @ s) = Matched d"
proof -
  have "\<not> startsWith (''-'' @ s) ''--''"
    using assms(4,5) by (cases s) (simp_all add: startsWith_def)
  moreover have "startsWith (''-'' @ s) ''-''" "1 < length (''-'' @ s)"
    using assms(4) by (simp_all add: startsWith_def)
  ultimately show ?thesis
    using assms(1-3) by (simp add: resolveToken_def substring_def)
qed

lemma afterWalk_same:
  assumes "sameOutcome st1 st2"
  shows "fst (afterWalk this st1) = fst (afterWalk this st2) \<and>
         sameOutcome (snd (afterWalk this st1)) (snd (afterWalk this st2))"
  using assms by (simp add: afterWalk_def sameOutcome_def split: prod.splits)

lemma initialState_same: "sameOutcome (initialState this argv1 w) (initialState this argv2 w)"
  by (simp add: sameOutcome_def initialState_def)

lemma parse_lockstep:
  assumes "parse this (a # rest) w = Some (r, st1)"
    and "resolveToken this a = Matched d0" and "resolveToken this b = Matched d0"
    and "\<forall>(k, d) \<in> set (arguments this). ignoresInput (callback d)"
  shows "\<exists>st2. parse this (b # rest) w = Some (r, st2) \<and> sameOutcome st1 st2"
proof -
  from assms(1) obtain ex st where
    w1: "walk this (a # rest) 0 (initialState this (a # rest) w) = Some (ex, st)"
    by (auto simp: parse_def split: option.splits)
  from walk_lockstep [OF w1 assms(2-4) initialState_same [of this "a # rest" w "b # rest"]]
  obtain st' where
    w2: "walk this (b # rest) 0 (initialState this (b # rest) w) = Some (ex, st')"
    and s: "sameOutcome st st'"
    by auto
  show ?thesis
  proof (cases ex)
    case (EarlyReturn r')
    with assms(1) w1 w2 s show ?thesis by (simp add: parse_def)
  next
    case LoopDone
    with assms(1) w1 have "afterWalk this st = (r, st1)" by (simp add: parse_def)
    with afterWalk_same [OF s, of this] LoopDone w2 show ?thesis
      by (cases "afterWalk this st'") (simp add: parse_def)
  qed
qed

text \<open>
  C7, as amended.  Let the short name \<open>s\<close> be registered for the long name \<open>l\<close>, with
  \<open>l\<close> not empty and \<open>s\<close> not empty and without a leading dash, and let no callback of
  the registry read the copies of the input in its context (a callback may read and
  write the rest of its context).  Then for every tail of
  tokens, \<^verbatim>\<open>parse\<close> of \<^verbatim>\<open>-s\<close> followed by the tail and \<^verbatim>\<open>parse\<close> of \<^verbatim>\<open>--l\<close> followed by
  the tail either both never return, or return the same result, with the same
  \<^verbatim>\<open>parsedArguments\<close>, the same callback invocations in the same order and the same
  state of the host.
\<close>

theorem short_alias_same_as_long:
  assumes "Map_get (shortNameMap this) s = Some l" and "Map_get (arguments this) l = Some d"
    and "l \<noteq> []" and "s \<noteq> []" and "\<not> startsWith s ''-''"
    and "\<forall>(k, d') \<in> set (arguments this). ignoresInput (callback d')"
  shows "(parse this ((''-'' @ s) # rest) w = None \<and> parse this ((''--'' @ l) # rest) w = None) \<or>
         (\<exists>r st1 st2. parse this ((''-'' @ s) # rest) w = Some (r, st1) \<and>
                       parse this ((''--'' @ l) # rest) w = Some (r, st2) \<and>
                       sameOutcome st1 st2)"
proof -
  note rs = resolveToken_short [OF assms(1-5)]
  note rl = resolveToken_long [OF assms(2)]
  show ?thesis
  proof (cases "parse this ((''-'' @ s) # rest) w")
    case None
    have "parse this ((''--'' @ l) # rest) w = None"
    proof (cases "parse this ((''--'' @ l) # rest) w")
      case (Some p)
      obtain r st2 where "p = (r, st2)" by (cases p)
      with Some parse_lockstep [OF _ rl rs assms(6), of rest w r st2] None show ?thesis
        by auto
    qed simp
    with None show ?thesis by simp
  next
    case (Some p)
    obtain r st1 where "p = (r, st1)" by (cases p)
    with Some parse_lockstep [OF _ rs rl assms(6), of rest w r st1] show ?thesis
      by auto
  qed
qed

lemma testCli_callbacks_ignore_input:
  "\<forall>(k, d') \<in> set (arguments testCli). ignoresInput (callback d')"
  by (simp add: testCli_arguments parsedArg_def ignoresInput_def countCall_def failCall_def)

lemma testCli_parse_short_verbose:
  "map_option (\<lambda>(r, st). (success r, error r, world st, invoked st,
                 map (own (parsedArguments (pcontext st))) [''verbose'', ''file'']))
     (parse testCli [''-v'', ''--file'', ''test.txt''] 0) =
   Some (True, None, 2, [(''verbose'', []), (''file'', [''test.txt''])],
         [Some JTrue, Some (JString ''test.txt'')])"
  by code_simp

lemma testCli_parse_long_verbose:
  "map_option (\<lambda>(r, st). (success r, error r, world st, invoked st,
                 map (own (parsedArguments (pcontext st))) [''verbose'', ''file'']))
     (parse testCli [''--verbose'', ''--file'', ''test.txt''] 0) =
   Some (True, None, 2, [(''verbose'', []), (''file'', [''test.txt''])],
         [Some JTrue, Some (JString ''test.txt'')])"
  by code_simp

theorem short_alias_same_as_long_witness:
  "(\<exists>r st1 st2. parse testCli [''-v'', ''--file'', ''test.txt''] 0 = Some (r, st1) \<and>
                 parse testCli [''--verbose'', ''--file'', ''test.txt''] 0 = Some (r, st2) \<and>
                 sameOutcome st1 st2) \<and>
   map_option (\<lambda>(r, st). (success r, error r, world st, invoked st,
                 map (own (parsedArguments (pcontext st))) [''verbose'', ''file'']))
     (parse testCli [''-v'', ''--file'', ''test.txt''] 0) =
   Some (True, None, 2, [(''verbose'', []), (''file'', [''test.txt''])],
         [Some JTrue, Some (JString ''test.txt'')]) \<and>
   map_option (\<lambda>(r, st). (success r, error r, world st, invoked st,
                 map (own (parsedArguments (pcontext st))) [''verbose'', ''file'']))
     (parse testCli [''--verbose'', ''--file'', ''test.txt''] 0) =
   Some (True, None, 2, [(''verbose'', []), (''file'', [''test.txt''])],
         [Some JTrue, Some (JString ''test.txt'')])"
proof -
  have s: "Map_get (shortNameMap testCli) ''v'' = Some ''verbose''"
    by (simp add: Map_get_def testCli_shortNameMap)
  have l: "Map_get (arguments testCli) ''verbose''
             = Some (parsedArg ''verbose'' (Some ''v'') 0 False None countCall)"
    by (simp add: Map_get_def testCli_arguments)
  have n: "''verbose'' \<noteq> []" "''v'' \<noteq> []" "\<not> startsWith ''v'' ''-''"
    by (simp_all add: startsWith_def)
  have some: "parse testCli [''-v'', ''--file'', ''test.txt''] 0 \<noteq> None"
    using testCli_parse_short_verbose by auto
  from short_alias_same_as_long [OF s l n testCli_callbacks_ignore_input,
         of "[''--file'', ''test.txt'']" 0] some
  have "\<exists>r st1 st2. parse testCli [''-v'', ''--file'', ''test.txt''] 0 = Some (r, st1) \<and>
                 parse testCli [''--verbose'', ''--file'', ''test.txt''] 0 = Some (r, st2) \<and>
                 sameOutcome st1 st2"
    by simp
  with testCli_parse_short_verbose testCli_parse_long_verbose show ?thesis
    by (simp only: simp_thms)
qed

text \<open>C7 as stated fails in three ways: for a short name that starts with a dash, whose
  token is read as a long name; for an empty long name, which the test of the looked-up
  long name takes for a missing one; and for a callback that reads the input from its
  context.\<close>

theorem short_alias_counterexample:
  "Map_get (shortNameMap dashCli) ''-v'' = Some ''verbose'' \<and>
   map_option (\<lambda>(r, st). (success r, error r, invoked st)) (parse dashCli [''-'' @ ''-v''] 0)
     = Some (False, Some ''Unknown argument: --v'', []) \<and>
   map_option (\<lambda>(r, st). (success r, error r, invoked st)) (parse dashCli [''--'' @ ''verbose''] 0)
     = Some (True, None, [(''verbose'', [])]) \<and>
   Map_get (shortNameMap emptyCli) ''e'' = Some [] \<and>
   map_option (\<lambda>(r, st). (success r, error r, invoked st)) (parse emptyCli [''-'' @ ''e''] 0)
     = Some (False, Some ''Unknown argument: -e'', []) \<and>
   map_option (\<lambda>(r, st). (success r, error r, invoked st)) (parse emptyCli [''--'' @ []] 0)
     = Some (True, None, [([], [])]) \<and>
   Map_get (shortNameMap peekCli) ''p'' = Some ''peek'' \<and>
   map_option (\<lambda>(r, st). (success r, error r, invoked st)) (parse peekCli [''-'' @ ''p''] 0)
     = Some (True, None, [(''peek'', [])]) \<and>
   map_option (\<lambda>(r, st). (success r, error r, invoked st)) (parse peekCli [''--'' @ ''peek''] 0)
     = Some (False, Some ''Error executing callback for --peek: long form'', [(''peek'', [])])"
  by code_simp

subsection \<open>Unknown arguments\<close>











end
